theory Spec2Isabelle
  imports Main "HOL-Library.Char_ord" "HOL-Library.List_Lexorder" "HOL-Library.Multiset"
begin

section \<open>TailSSH: the tab and session manager of public/app.js\<close>

text \<open>
  The browser program keeps its state in module-level variables (\<open>tabIdSeq\<close>, \<open>tabs\<close>,
  \<open>activeTabId\<close>, \<open>globalIpn\<close>, \<open>dragSrcId\<close>, \<open>modalBusy\<close>), in the closure variables of
  \<open>main\<close> (\<open>loginTimer\<close>, \<open>buttonsWired\<close>, \<open>ipnEverRan\<close>), in the closure variable \<open>closed\<close> of
  every activation of \<open>openSession\<close>, and in the document (the children of \<open>#tab-list\<close> and
  \<open>#pane-host\<close>, the value of \<open>#username-input\<close>). Every function below takes the state and
  returns the updated one. JavaScript runs each event handler to completion, so one handler
  is one function application.

  A tab object is created once by \<open>createTab\<close> and is then shared by reference between the
  array \<open>tabs\<close>, the listeners of its elements and the callbacks of its sessions. Its \<open>id\<close>
  is never assigned again, and \<open>tabEl.dataset.id\<close> and \<open>paneEl.dataset.id\<close> carry the same
  number. The model therefore names a tab object, its tab element and its pane element by
  that number: \<open>tabs\<close> and the two child lists are lists of ids, and the mutable fields of
  the objects live in the store \<open>tabObj\<close>, which keeps an object after it has left \<open>tabs\<close>
  (a pending prompt or a late callback may still hold it). Ids are natural numbers; the
  JavaScript counter is a double, exact below \<open>2 ^ 53\<close>.
\<close>

subsection \<open>Data\<close>

datatype ipn_state =
  NoState | InUseOtherUser | NeedsLogin | NeedsMachineAuth | Stopped | Starting | Running

text \<open>What a pane shows: nothing yet, the device picker, or the terminal of a session.\<close>

datatype pane_view = PaneEmpty | PickerView | TerminalView nat

text \<open>The device records that \<open>/api/devices\<close> returns to the browser.\<close>

record device =
  dev_id :: string
  name :: string
  displayName :: string
  hostname :: string
  addresses :: "string list"
  os :: string
  online :: bool
  lastSeen :: "string option"
  sshEnabled :: bool

text \<open>
  \<open>session\<close> is \<open>null\<close> or the object \<open>{ close() {...} }\<close> that \<open>openSession\<close> builds; the
  object is named by the number of the \<open>openSession\<close> activation that built it.
\<close>

record tab =
  session :: "nat option"
  label :: string
  pane :: pane_view

text \<open>
  The closure of one \<open>openSession\<close> activation that reached \<open>runSSHSession\<close>: the tab it
  captured and its local flag \<open>closed\<close>.
\<close>

record activation =
  act_tab :: nat
  closed :: bool

text \<open>
  The arguments of an \<open>openSession\<close> call suspended at \<open>await promptUsername(device)\<close>:
  tab, device, addr, displayName.
\<close>

type_synonym frame = "nat \<times> device \<times> string \<times> string"

text \<open>
  The trace lists, in program order, the calls into collaborators and the insertions into
  and removals from \<open>tabs\<close>: \<open>tabs.push\<close>, \<open>tabs.splice(idx, 1)\<close> and \<open>tabs.length = 0\<close>
  (one \<open>TabRemove\<close> per tab dropped), \<open>tab.session.close()\<close>, \<open>runSSHSession\<close> (activation,
  tab, hostname, username), the \<open>fetch\<close> of \<open>loadPicker\<close>, and \<open>ipn.login()\<close>.
\<close>

datatype event =
  TabPush nat
  | TabRemove nat
  | SessionClose nat
  | RunSSH nat nat string string
  | FetchDevices nat
  | IpnLogin

record state =
  tabIdSeq :: nat
  tabs :: "nat list"
  tabObj :: "nat \<Rightarrow> tab"
  activeTabId :: "nat option"
  globalIpn :: bool
  tabList :: "nat list"
  paneHost :: "nat list"
  dragSrcId :: "nat option"
  modalBusy :: bool
  usernameInput :: string
  awaiting :: "frame option"
  localStorage :: "string \<rightharpoonup> string"
  actSeq :: nat
  activations :: "nat \<Rightarrow> activation"
  loginTimer :: bool
  buttonsWired :: bool
  ipnEverRan :: bool
  status :: ipn_state
  trace :: "event list"

text \<open>The state when the module has been loaded and \<open>main\<close> has called \<open>ipn.run\<close>.\<close>

definition init :: state where
  "init = \<lparr> tabIdSeq = 0, tabs = [], tabObj = (\<lambda>_. \<lparr>session = None, label = [], pane = PaneEmpty\<rparr>),
     activeTabId = None, globalIpn = False, tabList = [], paneHost = [], dragSrcId = None,
     modalBusy = False, usernameInput = [], awaiting = None, localStorage = Map.empty,
     actSeq = 0, activations = (\<lambda>_. \<lparr>act_tab = 0, closed = False\<rparr>),
     loginTimer = False, buttonsWired = False, ipnEverRan = False, status = NoState,
     trace = [] \<rparr>"

subsection \<open>Arrays and the document\<close>

text \<open>\<open>Array.prototype.findIndex\<close>; \<open>None\<close> is the result \<open>-1\<close>.\<close>

fun findIndex :: "('a \<Rightarrow> bool) \<Rightarrow> 'a list \<Rightarrow> nat option" where
  "findIndex P [] = None"
| "findIndex P (x # xs) =
     (if P x then Some 0 else map_option Suc (findIndex P xs))"

text \<open>\<open>xs.splice(i, 1)\<close> and \<open>xs.splice(i, 0, x)\<close> for \<open>i \<ge> 0\<close>; a start beyond the end is the end.\<close>

definition splice_out :: "nat \<Rightarrow> 'a list \<Rightarrow> 'a list" where
  "splice_out i xs = take i xs @ drop (Suc i) xs"

definition splice_in :: "nat \<Rightarrow> 'a \<Rightarrow> 'a list \<Rightarrow> 'a list" where
  "splice_in i x xs = take i xs @ x # drop i xs"

text \<open>
  \<open>parent.insertBefore(node, ref)\<close> on the child list of \<open>parent\<close>: the node leaves its
  place and is put in front of \<open>ref\<close>. When \<open>ref\<close> is not a child the call throws and the
  children stay; when \<open>node\<close> is \<open>ref\<close> itself nothing moves.
\<close>

definition insertBefore :: "nat \<Rightarrow> nat \<Rightarrow> nat list \<Rightarrow> nat list" where
  "insertBefore node ref xs =
     (if ref \<in> set xs \<and> node \<noteq> ref
      then (let ys = removeAll node xs
            in takeWhile (\<lambda>x. x \<noteq> ref) ys @ node # dropWhile (\<lambda>x. x \<noteq> ref) ys)
      else xs)"

subsection \<open>Tab manager\<close>

definition getTab :: "nat \<Rightarrow> state \<Rightarrow> nat option" where
  "getTab i s = find (\<lambda>t. t = i) (tabs s)"

definition activateTab :: "nat \<Rightarrow> state \<Rightarrow> state" where
  "activateTab i s = s\<lparr>activeTabId := Some i\<rparr>"

definition setTabLabel :: "nat \<Rightarrow> string \<Rightarrow> state \<Rightarrow> state" where
  "setTabLabel i l s =
     (case getTab i s of
        None \<Rightarrow> s
      | Some t \<Rightarrow> s\<lparr>tabObj := (tabObj s)(t := (tabObj s t)\<lparr>label := l\<rparr>)\<rparr>)"

text \<open>
  \<open>loadPicker\<close> up to its first \<open>await\<close>: the label, the picker put into the pane, and the
  request for the device list. What it does with the response is \<open>pickerCards\<close> below.
\<close>

definition loadPicker :: "nat \<Rightarrow> state \<Rightarrow> state" where
  "loadPicker t s =
     (let s1 = setTabLabel t ''New tab'' s
      in s1\<lparr>tabObj := (tabObj s1)(t := (tabObj s1 t)\<lparr>pane := PickerView\<rparr>),
            trace := trace s1 @ [FetchDevices t]\<rparr>)"

text \<open>\<open>createTab\<close>; the tab it returns is the one named \<open>tabIdSeq\<close> in the result.\<close>

definition createTab :: "state \<Rightarrow> state" where
  "createTab s =
     (let i = Suc (tabIdSeq s);
          s1 = s\<lparr>tabIdSeq := i,
                 tabList := tabList s @ [i],
                 paneHost := paneHost s @ [i],
                 tabObj := (tabObj s)(i := \<lparr>session = None, label = ''New tab'', pane = PaneEmpty\<rparr>),
                 tabs := tabs s @ [i],
                 trace := trace s @ [TabPush i]\<rparr>
      in loadPicker i (activateTab i s1))"

text \<open>
  \<open>tab.session.close()\<close> for the session object of activation \<open>a\<close>: it sets the
  activation's \<open>closed\<close> and calls the \<open>close\<close> of what \<open>runSSHSession\<close> returned, swallowing
  what that throws.
\<close>

definition session_close :: "nat \<Rightarrow> state \<Rightarrow> state" where
  "session_close a s =
     s\<lparr>activations := (activations s)(a := (activations s a)\<lparr>closed := True\<rparr>),
       trace := trace s @ [SessionClose a]\<rparr>"

text \<open>The block \<open>if (tab.session) { try { tab.session.close(); } catch {} tab.session = null; }\<close>.\<close>

definition dropSession :: "nat \<Rightarrow> state \<Rightarrow> state" where
  "dropSession t s =
     (case session (tabObj s t) of
        None \<Rightarrow> s
      | Some a \<Rightarrow>
          (let s1 = session_close a s
           in s1\<lparr>tabObj := (tabObj s1)(t := (tabObj s1 t)\<lparr>session := None\<rparr>)\<rparr>))"

text \<open>\<open>tab.tabEl.remove(); tab.paneEl.remove();\<close>\<close>

definition removeEls :: "nat \<Rightarrow> state \<Rightarrow> state" where
  "removeEls t s = s\<lparr>tabList := removeAll t (tabList s), paneHost := removeAll t (paneHost s)\<rparr>"

text \<open>
  \<open>closeTab\<close>. \<open>findIndex\<close> cannot miss after \<open>getTab\<close> found the tab; were it \<open>-1\<close>,
  \<open>splice(-1, 1)\<close> would drop the last element, and \<open>Math.min(-1, n)\<close> would index nothing.
\<close>

definition closeTab :: "nat \<Rightarrow> state \<Rightarrow> state" where
  "closeTab i s =
     (case getTab i s of
        None \<Rightarrow> s
      | Some t \<Rightarrow>
          (let s1 = removeEls t (dropSession t s);
               idx = findIndex (\<lambda>x. x = i) (tabs s1);
               s2 = s1\<lparr>tabs := (case idx of Some k \<Rightarrow> splice_out k (tabs s1)
                                           | None \<Rightarrow> butlast (tabs s1)),
                       trace := trace s1 @ [TabRemove t]\<rparr>
           in if tabs s2 = [] then (if globalIpn s2 then createTab s2 else s2)
              else if activeTabId s2 = Some i
                   then (case idx of
                           Some k \<Rightarrow> activateTab (tabs s2 ! min k (length (tabs s2) - 1)) s2
                         | None \<Rightarrow> s2)
                   else s2))"

text \<open>\<open>clearAllTabs\<close>: the loop over a copy of \<open>tabs\<close>, then \<open>tabs.length = 0\<close>.\<close>

definition clearAllTabs :: "state \<Rightarrow> state" where
  "clearAllTabs s =
     (let s1 = fold (\<lambda>t x. removeEls t (dropSession t x)) (tabs s) s
      in s1\<lparr>tabs := [], activeTabId := None,
            trace := trace s1 @ map TabRemove (tabs s1)\<rparr>)"

subsection \<open>Drag-and-drop reorder\<close>

definition onDragStart :: "nat \<Rightarrow> state \<Rightarrow> state" where
  "onDragStart i s = s\<lparr>dragSrcId := Some i\<rparr>"

definition onDragEnd :: "state \<Rightarrow> state" where
  "onDragEnd s = s\<lparr>dragSrcId := None\<rparr>"

text \<open>\<open>onDrop\<close> on the tab element whose \<open>dataset.id\<close> is \<open>targetId\<close>.\<close>

definition onDrop :: "nat \<Rightarrow> state \<Rightarrow> state" where
  "onDrop targetId s =
     (case dragSrcId s of
        None \<Rightarrow> s
      | Some src \<Rightarrow>
          if src = targetId then s
          else (case (findIndex (\<lambda>t. t = src) (tabs s), findIndex (\<lambda>t. t = targetId) (tabs s)) of
                  (Some srcIdx, Some dstIdx) \<Rightarrow>
                    (let dstTabEl = tabs s ! dstIdx;
                         srcTab = tabs s ! srcIdx;
                         s1 = s\<lparr>tabs := splice_in dstIdx srcTab (splice_out srcIdx (tabs s))\<rparr>
                     in s1\<lparr>tabList := insertBefore srcTab dstTabEl (tabList s1)\<rparr>)
                | _ \<Rightarrow> s))"

text \<open>A whole drag of tab \<open>sourceId\<close> onto tab \<open>destinationId\<close>: dragstart, drop, dragend.\<close>

definition reorder :: "nat \<Rightarrow> nat \<Rightarrow> state \<Rightarrow> state" where
  "reorder sourceId destinationId s = onDragEnd (onDrop destinationId (onDragStart sourceId s))"

subsection \<open>Strings\<close>

text \<open>
  Strings are lists of characters; the helpers below are the JavaScript operations on
  ASCII text: \<open>a || b\<close> on strings, \<open>toLowerCase\<close>, \<open>trim\<close> (tab, line feed, vertical tab,
  form feed, carriage return, space), \<open>includes\<close> and \<open>split(".")[0]\<close>.

  \<open>String.prototype.trim\<close> also strips the white space beyond ASCII (U+00A0, U+FEFF, the
  other space separators, U+2028 and U+2029), which \<open>js_trim\<close> leaves in place. On a string
  of ASCII characters the two agree: the six characters of \<open>is_space\<close> are all the white
  space there is below 128. What is proved about the name typed into the prompt is
  therefore stated for an ASCII input, \<open>ascii v\<close>.
\<close>

definition js_or :: "string \<Rightarrow> string \<Rightarrow> string" where
  "js_or a b = (if a \<noteq> [] then a else b)"

definition lower_char :: "char \<Rightarrow> char" where
  "lower_char c =
     (let n = (of_char c :: nat) in if 65 \<le> n \<and> n \<le> 90 then char_of (n + 32) else c)"

definition toLowerCase :: "string \<Rightarrow> string" where
  "toLowerCase = map lower_char"

definition is_space :: "char \<Rightarrow> bool" where
  "is_space c = ((of_char c :: nat) \<in> {9, 10, 11, 12, 13, 32})"

definition js_trim :: "string \<Rightarrow> string" where
  "js_trim str = rev (dropWhile is_space (rev (dropWhile is_space str)))"

definition ascii :: "string \<Rightarrow> bool" where
  "ascii str = list_all (\<lambda>c. (of_char c :: nat) < 128) str"

fun js_includes :: "string \<Rightarrow> string \<Rightarrow> bool" where
  "js_includes [] needle = (needle = [])"
| "js_includes (c # cs) needle = (take (length needle) (c # cs) = needle \<or> js_includes cs needle)"

definition firstLabel :: "string \<Rightarrow> string" where
  "firstLabel str = takeWhile (\<lambda>c. c \<noteq> CHR ''.'') str"

subsection \<open>Stored user names\<close>

text \<open>
  \<open>localStorage\<close> as a map; the \<open>try\<close>/\<open>catch\<close> around each access turns a storage failure
  into "nothing stored", which a map without the key gives as well.
\<close>

definition LS_PREFIX :: string where
  "LS_PREFIX = ''tailssh:user:''"

definition getStoredUser :: "string \<Rightarrow> state \<Rightarrow> string" where
  "getStoredUser host s = (case localStorage s (LS_PREFIX @ host) of None \<Rightarrow> [] | Some u \<Rightarrow> u)"

definition setStoredUser :: "string \<Rightarrow> string \<Rightarrow> state \<Rightarrow> state" where
  "setStoredUser host username s =
     (if username \<noteq> []
      then s\<lparr>localStorage := (localStorage s)(LS_PREFIX @ host \<mapsto> username)\<rparr>
      else s\<lparr>localStorage := (localStorage s)(LS_PREFIX @ host := None)\<rparr>)"

subsection \<open>Username modal\<close>

text \<open>
  A promise is either resolved with a value when the call returns, or pending. The three
  listeners of the modal are added in the same synchronous block that sets \<open>modalBusy\<close>
  and removed in \<open>cleanup\<close>, which clears it: they are registered exactly while
  \<open>modalBusy\<close> holds, and a click or key without a listener does nothing.
\<close>

datatype 'a promise = Resolved 'a | Pending

definition promptUsername :: "device \<Rightarrow> state \<Rightarrow> state \<times> string option promise" where
  "promptUsername dev s =
     (if modalBusy s then (s, Resolved None)
      else (let key = js_or (displayName dev) (name dev);
                stored = getStoredUser key s;
                defaultUser = js_or stored
                  (if js_includes (toLowerCase (os dev)) ''darwin'' then [] else ''root'')
            in (s\<lparr>modalBusy := True, usernameInput := defaultUser\<rparr>, Pending)))"

text \<open>
  The handlers return the state and, when they resolved the pending promise, the value:
  \<open>Some (Some user)\<close>, \<open>Some None\<close> for \<open>null\<close>, and \<open>None\<close> when the promise stays as it was.
\<close>

definition cleanup :: "string option \<Rightarrow> state \<Rightarrow> state \<times> string option option" where
  "cleanup result s = (s\<lparr>modalBusy := False\<rparr>, Some result)"

definition onConnect :: "state \<Rightarrow> state \<times> string option option" where
  "onConnect s =
     (if \<not> modalBusy s then (s, None)
      else (let val = js_trim (usernameInput s)
            in if val = [] then (s, None) else cleanup (Some val) s))"

definition onCancel :: "state \<Rightarrow> state \<times> string option option" where
  "onCancel s = (if \<not> modalBusy s then (s, None) else cleanup None s)"

definition onKey :: "string \<Rightarrow> state \<Rightarrow> state \<times> string option option" where
  "onKey k s =
     (if k = ''Enter'' then onConnect s
      else if k = ''Escape'' then onCancel s
      else (s, None))"

text \<open>The user edits \<open>#username-input\<close>.\<close>

definition typeUsername :: "string \<Rightarrow> state \<Rightarrow> state" where
  "typeUsername v s = s\<lparr>usernameInput := v\<rparr>"

subsection \<open>SSH sessions\<close>

text \<open>
  \<open>openSession\<close> after \<open>await promptUsername(device)\<close> has produced \<open>user\<close>. The callbacks
  handed to \<open>runSSHSession\<close> are \<open>onError\<close> and \<open>onDone\<close> below; they arrive as later events.
\<close>

definition openSession_resume :: "string option \<Rightarrow> frame \<Rightarrow> state \<Rightarrow> state" where
  "openSession_resume user fr s =
     (case fr of (t, dev, addr, dn) \<Rightarrow>
        (case user of
           None \<Rightarrow> s
         | Some u \<Rightarrow>
             if u = [] then s
             else if session (tabObj s t) \<noteq> None then s
             else (let s1 = setStoredUser (js_or (displayName dev) (name dev)) u s;
                       s2 = setTabLabel t (u @ ''@'' @ dn) s1;
                       a = Suc (actSeq s2);
                       s3 = s2\<lparr>actSeq := a,
                               tabObj := (tabObj s2)(t := (tabObj s2 t)\<lparr>pane := TerminalView a\<rparr>),
                               activations := (activations s2)(a := \<lparr>act_tab = t, closed = False\<rparr>),
                               trace := trace s2 @ [RunSSH a t addr u]\<rparr>
                   in s3\<lparr>tabObj := (tabObj s3)(t := (tabObj s3 t)\<lparr>session := Some a\<rparr>)\<rparr>)))"

definition openSession :: "nat \<Rightarrow> device \<Rightarrow> string \<Rightarrow> string \<Rightarrow> state \<Rightarrow> state" where
  "openSession t dev addr dn s =
     (if session (tabObj s t) \<noteq> None then s
      else (case promptUsername dev s of
              (s1, Resolved user) \<Rightarrow> openSession_resume user (t, dev, addr, dn) s1
            | (s1, Pending) \<Rightarrow> s1\<lparr>awaiting := Some (t, dev, addr, dn)\<rparr>))"

text \<open>A modal handler has run: when it resolved the promise, the suspended call goes on.\<close>

fun settle :: "state \<times> string option option \<Rightarrow> state" where
  "settle (s, None) = s"
| "settle (s, Some user) =
     (case awaiting s of
        None \<Rightarrow> s
      | Some fr \<Rightarrow> openSession_resume user fr (s\<lparr>awaiting := None\<rparr>))"

definition onSessionEnd :: "nat \<Rightarrow> state \<Rightarrow> state" where
  "onSessionEnd t s =
     loadPicker t (s\<lparr>tabObj := (tabObj s)(t := (tabObj s t)\<lparr>session := None, pane := PaneEmpty\<rparr>)\<rparr>)"

text \<open>The callbacks of activation \<open>a\<close>.\<close>

definition onError :: "nat \<Rightarrow> state \<Rightarrow> state" where
  "onError a s =
     (if \<not> closed (activations s a) then onSessionEnd (act_tab (activations s a)) s else s)"

definition onDone :: "nat \<Rightarrow> state \<Rightarrow> state" where
  "onDone a s =
     (if \<not> closed (activations s a) then onSessionEnd (act_tab (activations s a)) s else s)"

subsection \<open>The IPN state machine of \<open>main\<close>\<close>

definition setStatus :: "ipn_state \<Rightarrow> state \<Rightarrow> state" where
  "setStatus st s = s\<lparr>status := st\<rparr>"

definition scheduleLogin :: "state \<Rightarrow> state" where
  "scheduleLogin s = s\<lparr>loginTimer := True\<rparr>"

definition loginTimerFires :: "state \<Rightarrow> state" where
  "loginTimerFires s =
     (if loginTimer s then s\<lparr>loginTimer := False, trace := trace s @ [IpnLogin]\<rparr> else s)"

definition notifyState :: "ipn_state \<Rightarrow> state \<Rightarrow> state" where
  "notifyState st s =
     (let s0 = setStatus st s
      in case st of
           Running \<Rightarrow>
             (let s1 = s0\<lparr>loginTimer := False, ipnEverRan := True\<rparr>;
                  s2 = (if \<not> buttonsWired s1 then s1\<lparr>buttonsWired := True, globalIpn := True\<rparr>
                        else s1)
              in if tabs s2 = [] then createTab s2 else s2)
         | NeedsLogin \<Rightarrow> scheduleLogin (clearAllTabs s0)
         | NeedsMachineAuth \<Rightarrow> scheduleLogin (clearAllTabs s0)
         | Stopped \<Rightarrow> clearAllTabs s0
         | _ \<Rightarrow> s0)"

text \<open>
  \<open>notifyPanicRecover\<close>, and likewise the \<open>panicHandler\<close> given to \<open>createIPN\<close>. The overlays
  (\<open>showLoading\<close>, \<open>hideLoading\<close>, \<open>showAuthOverlay\<close>) and the badge of \<open>setStatus\<close> only
  paint; of \<open>setStatus\<close> the model keeps the state it was given.
\<close>

definition notifyPanicRecover :: "state \<Rightarrow> state" where
  "notifyPanicRecover s = clearAllTabs s"

text \<open>The click listener of \<open>#new-tab-btn\<close>, added when \<open>buttonsWired\<close> is set.\<close>

definition newTabClick :: "state \<Rightarrow> state" where
  "newTabClick s = (if buttonsWired s then createTab s else s)"

subsection \<open>Events\<close>

text \<open>
  What can happen to the page, one handler at a time. A listener of a tab element runs
  only while the element is in the document; the connect button of a card exists only
  for a device that is online with SSH enabled, in a pane that shows the picker; the
  callbacks of an activation exist once it has called \<open>runSSHSession\<close>, and they are
  taken to arrive as events of their own, after \<open>openSession\<close> has stored the session.
\<close>

datatype action =
  NotifyState ipn_state
  | NotifyPanic
  | LoginTimer
  | NewTabClick
  | CloseClick nat
  | TabClick nat
  | DragStart nat
  | Drop nat
  | DragEnd
  | ConnectClick nat device
  | TypeUsername string
  | UsernameConnect
  | UsernameCancel
  | UsernameKey string
  | SessionError nat
  | SessionDone nat

text \<open>The address and the name that \<open>buildCard\<close> passes to \<open>openSession\<close>.\<close>

definition cardAddr :: "device \<Rightarrow> string" where
  "cardAddr dev =
     (case find (\<lambda>a. \<not> js_includes a '':'') (addresses dev) of Some a \<Rightarrow> a | None \<Rightarrow> name dev)"

definition cardName :: "device \<Rightarrow> string" where
  "cardName dev =
     js_or (displayName dev) (if name dev \<noteq> [] then firstLabel (name dev) else ''unknown'')"

fun step :: "state \<Rightarrow> action \<Rightarrow> state" where
  "step s (NotifyState st) = notifyState st s"
| "step s NotifyPanic = notifyPanicRecover s"
| "step s LoginTimer = loginTimerFires s"
| "step s NewTabClick = newTabClick s"
| "step s (CloseClick i) = (if i \<in> set (tabList s) then closeTab i s else s)"
| "step s (TabClick i) = (if i \<in> set (tabList s) then activateTab i s else s)"
| "step s (DragStart i) = (if i \<in> set (tabList s) then onDragStart i s else s)"
| "step s (Drop i) = (if i \<in> set (tabList s) then onDrop i s else s)"
| "step s DragEnd = onDragEnd s"
| "step s (ConnectClick t dev) =
     (if t \<in> set (paneHost s) \<and> pane (tabObj s t) = PickerView \<and> online dev \<and> sshEnabled dev
      then openSession t dev (cardAddr dev) (cardName dev) s else s)"
| "step s (TypeUsername v) = typeUsername v s"
| "step s UsernameConnect = settle (onConnect s)"
| "step s UsernameCancel = settle (onCancel s)"
| "step s (UsernameKey k) = settle (onKey k s)"
| "step s (SessionError a) = (if 1 \<le> a \<and> a \<le> actSeq s then onError a s else s)"
| "step s (SessionDone a) = (if 1 \<le> a \<and> a \<le> actSeq s then onDone a s else s)"

definition run :: "action list \<Rightarrow> state" where
  "run acts = foldl step init acts"

section \<open>The device list: the worker's \<open>/api/devices\<close> and the picker\<close>

subsection \<open>The worker\<close>

text \<open>
  A device as the Tailscale API sends it; every field the worker reads may be missing.
\<close>

record api_device =
  api_id :: string
  api_name :: "string option"
  api_hostname :: "string option"
  api_addresses :: "string list option"
  api_os :: "string option"
  api_lastSeen :: "string option"
  api_sshEnabled :: "bool option"

text \<open>
  \<open>new Date(str).getTime()\<close> is the platform's: the parameter \<open>parseDate\<close> gives the
  milliseconds since the epoch, or \<open>None\<close> for \<open>NaN\<close> (a string that is not a date).
  \<open>lastSeenMs\<close> is \<open>d.lastSeen ? new Date(d.lastSeen).getTime() : 0\<close>.
\<close>

definition lastSeenMs :: "(string \<Rightarrow> int option) \<Rightarrow> string option \<Rightarrow> int option" where
  "lastSeenMs parseDate ls =
     (case ls of
        None \<Rightarrow> Some 0
      | Some str \<Rightarrow> if str = [] then Some 0 else parseDate str)"

text \<open>\<open>lastSeenMs > 0 && (now - lastSeenMs) < 10 * 60 * 1000\<close>; a comparison with \<open>NaN\<close> is false.\<close>

definition inferOnline :: "(string \<Rightarrow> int option) \<Rightarrow> int \<Rightarrow> string option \<Rightarrow> bool" where
  "inferOnline parseDate now ls =
     (case lastSeenMs parseDate ls of
        None \<Rightarrow> False
      | Some ms \<Rightarrow> ms > 0 \<and> now - ms < 10 * 60 * 1000)"

text \<open>The function given to \<open>flatMap\<close>.\<close>

definition trimDevice :: "(string \<Rightarrow> int option) \<Rightarrow> int \<Rightarrow> api_device \<Rightarrow> device list" where
  "trimDevice parseDate now d =
     (case api_name d of
        None \<Rightarrow> []
      | Some nm \<Rightarrow>
          if nm = [] then []
          else [\<lparr> dev_id = api_id d,
                  name = nm,
                  displayName = firstLabel nm,
                  hostname = (case api_hostname d of None \<Rightarrow> [] | Some h \<Rightarrow> h),
                  addresses = (case api_addresses d of None \<Rightarrow> [] | Some a \<Rightarrow> a),
                  os = (case api_os d of None \<Rightarrow> [] | Some x \<Rightarrow> x),
                  online = inferOnline parseDate now (api_lastSeen d),
                  lastSeen = api_lastSeen d,
                  sshEnabled = (case api_sshEnabled d of None \<Rightarrow> False | Some b \<Rightarrow> b) \<rparr>])"

text \<open>
  What the Tailscale API did: the \<open>fetch\<close> threw, or it answered with a status and, as
  JSON, an object whose \<open>devices\<close> may be missing. The worker answers with an error status
  or with the trimmed list.
\<close>

datatype upstream = Unreachable | Replied nat "api_device list option"

datatype response = ErrorResponse nat | DevicesResponse "device list"

definition handleDevices ::
  "(string \<Rightarrow> int option) \<Rightarrow> int \<Rightarrow> bool \<Rightarrow> string \<Rightarrow> upstream \<Rightarrow> response" where
  "handleDevices parseDate now hasToken method up =
     (if \<not> hasToken then ErrorResponse 500
      else if method \<noteq> ''GET'' then ErrorResponse 405
      else (case up of
              Unreachable \<Rightarrow> ErrorResponse 502
            | Replied st body \<Rightarrow>
                if \<not> (200 \<le> st \<and> st \<le> 299)
                then ErrorResponse (if st = 401 \<or> st = 403 then st else 502)
                else DevicesResponse
                       (concat (map (trimDevice parseDate now)
                                    (case body of None \<Rightarrow> [] | Some ds \<Rightarrow> ds)))))"

subsection \<open>The picker\<close>

text \<open>
  \<open>String.prototype.localeCompare\<close> is the platform's collation: the parameter \<open>lc\<close>, whose
  sign orders two strings.
\<close>

definition sortName :: "device \<Rightarrow> string" where
  "sortName d = js_or (displayName d) (js_or (name d) [])"

definition compareDevices :: "(string \<Rightarrow> string \<Rightarrow> int) \<Rightarrow> device \<Rightarrow> device \<Rightarrow> int" where
  "compareDevices lc a b =
     (if sshEnabled a \<noteq> sshEnabled b then (if sshEnabled a then - 1 else 1)
      else if online a \<noteq> online b then (if online a then - 1 else 1)
      else lc (sortName a) (sortName b))"

text \<open>
  \<open>Array.prototype.sort(cmp)\<close>: the standard makes it stable and, for a comparator that
  is a consistent ordering, sorted; the stable insertion sort is that result.
\<close>

fun insertSorted :: "('a \<Rightarrow> 'a \<Rightarrow> int) \<Rightarrow> 'a \<Rightarrow> 'a list \<Rightarrow> 'a list" where
  "insertSorted cmp x [] = [x]"
| "insertSorted cmp x (y # ys) =
     (if cmp x y \<le> 0 then x # y # ys else y # insertSorted cmp x ys)"

definition js_sort :: "('a \<Rightarrow> 'a \<Rightarrow> int) \<Rightarrow> 'a list \<Rightarrow> 'a list" where
  "js_sort cmp xs = foldr (insertSorted cmp) xs []"

fun join_space :: "string list \<Rightarrow> string" where
  "join_space [] = []"
| "join_space [x] = x"
| "join_space (x # y # zs) = x @ '' '' @ join_space (y # zs)"

definition haystack :: "device \<Rightarrow> string" where
  "haystack d = toLowerCase (join_space ([displayName d, hostname d, os d] @ addresses d))"

text \<open>\<open>renderCards(query)\<close>: the devices whose cards are appended to the grid, in order.\<close>

definition renderCards :: "device list \<Rightarrow> string \<Rightarrow> device list" where
  "renderCards cards query =
     (let q = toLowerCase (js_trim query)
      in filter (\<lambda>d. q = [] \<or> js_includes (haystack d) q) cards)"

text \<open>
  \<open>loadPicker\<close> once the response is there: no card on an error or on an empty list,
  otherwise the sorted devices rendered with the empty query.
\<close>

definition pickerCards :: "(string \<Rightarrow> string \<Rightarrow> int) \<Rightarrow> response \<Rightarrow> device list" where
  "pickerCards lc resp =
     (case resp of
        ErrorResponse _ \<Rightarrow> []
      | DevicesResponse devices \<Rightarrow>
          if devices = [] then []
          else renderCards (js_sort (compareDevices lc) devices) [])"

text \<open>
  The order of the picker in the words of its description: SSH-enabled first, then
  online, then by name.
\<close>

definition pickerOrder :: "(string \<Rightarrow> string \<Rightarrow> int) \<Rightarrow> device \<Rightarrow> device \<Rightarrow> bool" where
  "pickerOrder lc a b =
     ((sshEnabled a \<and> \<not> sshEnabled b) \<or>
      (sshEnabled a = sshEnabled b \<and>
         ((online a \<and> \<not> online b) \<or>
          (online a = online b \<and> lc (sortName a) (sortName b) \<le> 0))))"

text \<open>
  A comparator that is a consistent ordering: any two strings compare one way or the
  other, and transitively.
\<close>

definition consistent :: "('a \<Rightarrow> 'a \<Rightarrow> int) \<Rightarrow> bool" where
  "consistent cmp =
     ((\<forall>a b. cmp a b \<le> 0 \<or> cmp b a \<le> 0) \<and>
      (\<forall>a b c. cmp a b \<le> 0 \<and> cmp b c \<le> 0 \<longrightarrow> cmp a c \<le> 0))"

text \<open>A collation that ignores case: lower-case both, compare character by character.\<close>

definition caselessCompare :: "string \<Rightarrow> string \<Rightarrow> int" where
  "caselessCompare a b =
     (if toLowerCase a < toLowerCase b then - 1
      else if toLowerCase a = toLowerCase b then 0 else 1)"

section \<open>Notions used by the properties\<close>

text \<open>The ids given to \<open>tabs.push\<close>, in the order of the pushes.\<close>

fun pushed :: "event list \<Rightarrow> nat list" where
  "pushed [] = []"
| "pushed (TabPush i # es) = i # pushed es"
| "pushed (e # es) = pushed es"

text \<open>
  What holds of the registry in every state the page can reach: the live ids are distinct
  and were pushed, the pushed ids increase strictly and stay below the counter, and a tab
  exists, the state is \<open>Running\<close> or the buttons are wired only after \<open>globalIpn\<close> was set.
\<close>

definition inv :: "state \<Rightarrow> bool" where
  "inv s =
     (distinct (tabs s) \<and>
      set (tabs s) \<subseteq> set (pushed (trace s)) \<and>
      sorted_wrt (<) (pushed (trace s)) \<and>
      (\<forall>i \<in> set (pushed (trace s)). i \<le> tabIdSeq s) \<and>
      (tabs s \<noteq> [] \<longrightarrow> globalIpn s) \<and>
      (status s = Running \<longrightarrow> globalIpn s) \<and>
      (buttonsWired s \<longrightarrow> globalIpn s))"

text \<open>Two states with the same registry, counter, pushes and connectivity latches.\<close>

definition same_core :: "state \<Rightarrow> state \<Rightarrow> bool" where
  "same_core s s' =
     (tabs s' = tabs s \<and> tabIdSeq s' = tabIdSeq s \<and> pushed (trace s') = pushed (trace s) \<and>
      globalIpn s' = globalIpn s \<and> status s' = status s \<and> buttonsWired s' = buttonsWired s)"

text \<open>\<open>closeTab\<close> of a tab found at index \<open>k\<close>, up to and including \<open>tabs.splice(idx, 1)\<close>.\<close>

definition detached :: "nat \<Rightarrow> nat \<Rightarrow> state \<Rightarrow> state" where
  "detached i k s =
     (let s1 = removeEls i (dropSession i s)
      in s1\<lparr>tabs := splice_out k (tabs s1), trace := trace s1 @ [TabRemove i]\<rparr>)"

text \<open>A sequence of direct calls of \<open>createTab\<close> and \<open>closeTab\<close>.\<close>

datatype tab_call = CreateTab | CloseTab nat

fun call :: "state \<Rightarrow> tab_call \<Rightarrow> state" where
  "call s CreateTab = createTab s"
| "call s (CloseTab i) = closeTab i s"

text \<open>The registry lists its ids in strictly increasing order, and so do the pushes.\<close>

definition ids_inv :: "state \<Rightarrow> bool" where
  "ids_inv s =
     (sorted_wrt (<) (tabs s) \<and>
      set (tabs s) \<subseteq> set (pushed (trace s)) \<and>
      sorted_wrt (<) (pushed (trace s)) \<and>
      (\<forall>i \<in> set (pushed (trace s)). i \<le> tabIdSeq s))"

text \<open>The page after \<open>Running\<close> and two clicks on the new-tab button: tabs 1, 2, 3.\<close>

definition three_tabs :: state where
  "three_tabs = run [NotifyState Running, NewTabClick, NewTabClick]"

text \<open>What an operation added to the trace.\<close>

definition new_events :: "state \<Rightarrow> state \<Rightarrow> event list" where
  "new_events s s' = drop (length (trace s)) (trace s')"

text \<open>In a trace, \<open>b\<close> occurs after the first occurrence of \<open>a\<close>.\<close>

definition before :: "event \<Rightarrow> event \<Rightarrow> event list \<Rightarrow> bool" where
  "before a b tr = (b \<in> set (drop 1 (dropWhile (\<lambda>e. e \<noteq> a) tr)))"

text \<open>A device, and the page with one tab whose session to that device is open.\<close>

definition dev_a :: device where
  "dev_a = \<lparr> dev_id = ''1'', name = ''a.ts.net'', displayName = ''a'', hostname = ''a'',
     addresses = [''100.64.0.1''], os = ''linux'', online = True, lastSeen = None,
     sshEnabled = True \<rparr>"

definition one_session :: state where
  "one_session = run [NotifyState Running, ConnectClick 1 dev_a, UsernameConnect]"

text \<open>How often \<open>runSSHSession\<close> has been called for tab \<open>t\<close>.\<close>

fun opened :: "nat \<Rightarrow> event list \<Rightarrow> nat" where
  "opened t [] = 0"
| "opened t (RunSSH a t' h u # es) = (if t' = t then Suc (opened t es) else opened t es)"
| "opened t (e # es) = opened t es"

text \<open>How often tab \<open>t\<close> was handed back to the picker between two states.\<close>

definition ended_count :: "nat \<Rightarrow> state \<Rightarrow> state \<Rightarrow> nat" where
  "ended_count t s s' = count_list (new_events s s') (FetchDevices t)"

text \<open>
  "A non-null lastSeen timestamp whose distance from the handler's current time is
  strictly less than 10 minutes."
\<close>

definition seenWithin :: "(string \<Rightarrow> int option) \<Rightarrow> int \<Rightarrow> string option \<Rightarrow> bool" where
  "seenWithin parseDate now ls =
     (case ls of
        None \<Rightarrow> False
      | Some str \<Rightarrow>
          (case parseDate str of None \<Rightarrow> False | Some ms \<Rightarrow> \<bar>now - ms\<bar> < 10 * 60 * 1000))"

text \<open>
  A lastSeen that is a non-empty string and a date after the epoch, with less than ten
  minutes elapsed from it to now; nothing is asked of a date that lies ahead of now.
\<close>

definition seenSince :: "(string \<Rightarrow> int option) \<Rightarrow> int \<Rightarrow> string option \<Rightarrow> bool" where
  "seenSince parseDate now ls =
     (case ls of
        None \<Rightarrow> False
      | Some str \<Rightarrow> str \<noteq> [] \<and>
          (case parseDate str of None \<Rightarrow> False | Some ms \<Rightarrow> 0 < ms \<and> now - ms < 10 * 60 * 1000))"

text \<open>
  One date for the examples: 2023-11-14T23:13:20Z is 1700003600000 ms after the epoch,
  one hour after 1700000000000.
\<close>

definition parseDate_ex :: "string \<Rightarrow> int option" where
  "parseDate_ex str = (if str = ''2023-11-14T23:13:20Z'' then Some 1700003600000 else None)"

definition api_ex :: api_device where
  "api_ex = \<lparr> api_id = ''1'', api_name = Some ''a.ts.net'', api_hostname = None,
     api_addresses = None, api_os = None, api_lastSeen = Some ''2023-11-14T23:13:20Z'',
     api_sshEnabled = Some True \<rparr>"

text \<open>
  The three devices of the scenario as the Tailscale API would send them; the API has no
  \<open>online\<close> field, the worker infers it from \<open>lastSeen\<close>, which is left open here.
\<close>

definition scenario :: "string option \<Rightarrow> string option \<Rightarrow> string option \<Rightarrow> api_device list" where
  "scenario l1 l2 l3 =
    [\<lparr> api_id = ''1'', api_name = Some ''a.ts.net'', api_hostname = None, api_addresses = None,
       api_os = None, api_lastSeen = l1, api_sshEnabled = Some True \<rparr>,
     \<lparr> api_id = ''2'', api_name = Some ''b.ts.net'', api_hostname = None, api_addresses = None,
       api_os = None, api_lastSeen = l2, api_sshEnabled = Some False \<rparr>,
     \<lparr> api_id = ''3'', api_name = Some [], api_hostname = None, api_addresses = None,
       api_os = None, api_lastSeen = l3, api_sshEnabled = Some True \<rparr>]"

text \<open>Four devices that differ in SSH, in being online and in the case of their names.\<close>

definition four_devices :: "device list" where
  "four_devices =
    [\<lparr> dev_id = ''1'', name = ''delta.ts.net'', displayName = ''delta'', hostname = [],
       addresses = [], os = [], online = True, lastSeen = None, sshEnabled = False \<rparr>,
     \<lparr> dev_id = ''2'', name = ''Bravo.ts.net'', displayName = ''Bravo'', hostname = [],
       addresses = [], os = [], online = True, lastSeen = None, sshEnabled = True \<rparr>,
     \<lparr> dev_id = ''3'', name = ''charlie.ts.net'', displayName = ''charlie'', hostname = [],
       addresses = [], os = [], online = False, lastSeen = None, sshEnabled = True \<rparr>,
     \<lparr> dev_id = ''4'', name = ''alpha.ts.net'', displayName = ''alpha'', hostname = [],
       addresses = [], os = [], online = True, lastSeen = None, sshEnabled = True \<rparr>]"

text \<open>
  The page after \<open>Running\<close>, a click on the connect button of a device in tab 1, the
  notification \<open>NeedsLogin\<close> while the prompt is open, and Enter in the prompt.
\<close>

definition late_confirm :: state where
  "late_confirm =
     run [NotifyState Running, ConnectClick 1 dev_a, NotifyState NeedsLogin, UsernameKey ''Enter'']"

section \<open>Properties\<close>

subsection \<open>Handlers that leave the registry alone\<close>

lemma pushed_append: "pushed (xs @ ys) = pushed xs @ pushed ys"
  by (induction xs rule: pushed.induct) auto

lemma pushed_map_TabRemove: "pushed (map TabRemove xs) = []"
  by (induction xs) auto

lemma inv_same_core: "inv s \<Longrightarrow> same_core s s' \<Longrightarrow> inv s'"
  by (simp add: inv_def same_core_def)

lemma same_core_refl: "same_core s s"
  by (simp add: same_core_def)

lemma same_core_trans: "same_core s s' \<Longrightarrow> same_core s' s'' \<Longrightarrow> same_core s s''"
  by (simp add: same_core_def)

lemma same_core_setTabLabel: "same_core s (setTabLabel i l s)"
  by (simp add: same_core_def setTabLabel_def split: option.splits)

lemma same_core_loadPicker: "same_core s (loadPicker t s)"
  using same_core_setTabLabel[of s t "''New tab''"]
  by (simp add: same_core_def loadPicker_def Let_def pushed_append)

lemma same_core_activateTab: "same_core s (activateTab i s)"
  by (simp add: same_core_def activateTab_def)

lemma same_core_dropSession: "same_core s (dropSession t s)"
  by (simp add: same_core_def dropSession_def session_close_def Let_def pushed_append
      split: option.splits)

lemma same_core_removeEls: "same_core s (removeEls t s)"
  by (simp add: same_core_def removeEls_def)

lemma same_core_onSessionEnd: "same_core s (onSessionEnd t s)"
  unfolding onSessionEnd_def
  by (rule same_core_trans[OF _ same_core_loadPicker]) (simp add: same_core_def)

lemma same_core_onError: "same_core s (onError a s)"
  by (simp add: onError_def same_core_onSessionEnd same_core_refl)

lemma same_core_onDone: "same_core s (onDone a s)"
  by (simp add: onDone_def same_core_onSessionEnd same_core_refl)

lemma same_core_setStoredUser: "same_core s (setStoredUser h u s)"
  by (simp add: same_core_def setStoredUser_def)

lemma same_core_resume: "same_core s (openSession_resume user fr s)"
proof -
  obtain t dev addr dn where fr: "fr = (t, dev, addr, dn)" by (cases fr) auto
  have "same_core s (setTabLabel t l (setStoredUser h u s))" for l h u
    by (rule same_core_trans[OF same_core_setStoredUser same_core_setTabLabel])
  then show ?thesis
    by (auto simp: fr openSession_resume_def Let_def same_core_def pushed_append
        split: option.splits)
qed

lemma same_core_promptUsername: "same_core s (fst (promptUsername dev s))"
  by (simp add: promptUsername_def same_core_def Let_def)

lemma same_core_openSession: "same_core s (openSession t dev addr dn s)"
proof (cases "promptUsername dev s")
  case (Pair s1 p)
  with same_core_promptUsername[of s dev] have c: "same_core s s1" by simp
  show ?thesis
  proof (cases p)
    case (Resolved user)
    with Pair c show ?thesis
      by (auto simp: openSession_def same_core_refl intro: same_core_trans[OF c same_core_resume])
  next
    case Pending
    with Pair c show ?thesis
      by (auto simp: openSession_def same_core_def)
  qed
qed

lemma same_core_settle_onConnect: "same_core s (settle (onConnect s))"
proof -
  have "same_core s (openSession_resume u fr (s\<lparr>modalBusy := False, awaiting := None\<rparr>))" for u fr
    by (rule same_core_trans[OF _ same_core_resume]) (simp add: same_core_def)
  then show ?thesis
    by (auto simp: onConnect_def cleanup_def Let_def same_core_refl same_core_def
        split: option.splits)
qed

lemma same_core_settle_onCancel: "same_core s (settle (onCancel s))"
proof -
  have "same_core s (openSession_resume u fr (s\<lparr>modalBusy := False, awaiting := None\<rparr>))" for u fr
    by (rule same_core_trans[OF _ same_core_resume]) (simp add: same_core_def)
  then show ?thesis
    by (auto simp: onCancel_def cleanup_def Let_def same_core_refl same_core_def
        split: option.splits)
qed

subsection \<open>The registry invariant\<close>

lemma same_core_settle_onKey: "same_core s (settle (onKey k s))"
  by (simp add: onKey_def same_core_settle_onConnect same_core_settle_onCancel same_core_refl)

lemma tabs_createTab: "tabs (createTab s) = tabs s @ [Suc (tabIdSeq s)]"
  by (simp add: createTab_def loadPicker_def setTabLabel_def getTab_def activateTab_def Let_def
      split: option.splits)

lemma tabIdSeq_createTab: "tabIdSeq (createTab s) = Suc (tabIdSeq s)"
  by (simp add: createTab_def loadPicker_def setTabLabel_def getTab_def activateTab_def Let_def
      split: option.splits)

lemma trace_createTab:
  "trace (createTab s) = trace s @ [TabPush (Suc (tabIdSeq s)), FetchDevices (Suc (tabIdSeq s))]"
  by (simp add: createTab_def loadPicker_def setTabLabel_def getTab_def activateTab_def Let_def
      split: option.splits)

lemma tabList_createTab: "tabList (createTab s) = tabList s @ [Suc (tabIdSeq s)]"
  by (simp add: createTab_def loadPicker_def setTabLabel_def getTab_def activateTab_def Let_def
      split: option.splits)

lemma latches_createTab:
  "globalIpn (createTab s) = globalIpn s" "status (createTab s) = status s"
  "buttonsWired (createTab s) = buttonsWired s"
  by (simp_all add: createTab_def loadPicker_def setTabLabel_def getTab_def activateTab_def Let_def
      split: option.splits)

lemma inv_createTab: "inv s \<Longrightarrow> globalIpn s \<Longrightarrow> inv (createTab s)"
  unfolding inv_def
  by (fastforce simp: tabs_createTab tabIdSeq_createTab trace_createTab latches_createTab
      pushed_append sorted_wrt_append)

lemma findIndex_mem: "i \<in> set xs \<Longrightarrow> \<exists>k. findIndex (\<lambda>x. x = i) xs = Some k \<and> k < length xs \<and> xs ! k = i"
  by (induction xs) auto

lemma findIndex_None: "i \<notin> set xs \<Longrightarrow> findIndex (\<lambda>x. x = i) xs = None"
  by (induction xs) auto

lemma find_eq: "find (\<lambda>t. t = i) xs = (if i \<in> set xs then Some i else None)"
  by (induction xs) auto

lemma set_splice_out: "set (splice_out k xs) \<subseteq> set xs"
  by (auto simp: splice_out_def dest: in_set_takeD in_set_dropD)

lemma distinct_splice_out: "distinct xs \<Longrightarrow> distinct (splice_out k xs)"
  unfolding splice_out_def
  by (simp add: set_take_disj_set_drop_if_distinct)


lemma tabs_dropSession: "tabs (dropSession t s) = tabs s"
  using same_core_dropSession[of s t] by (simp add: same_core_def)

lemma tabs_removeEls: "tabs (removeEls t s) = tabs s"
  by (simp add: removeEls_def)

lemma closeTab_absent: "i \<notin> set (tabs s) \<Longrightarrow> closeTab i s = s"
  by (simp add: closeTab_def getTab_def find_eq)

lemma closeTab_present:
  assumes "i \<in> set (tabs s)"
  obtains k where "findIndex (\<lambda>x. x = i) (tabs s) = Some k" "k < length (tabs s)" "tabs s ! k = i"
    "closeTab i s =
       (let s2 = detached i k s
        in if tabs s2 = [] then (if globalIpn s2 then createTab s2 else s2)
           else if activeTabId s2 = Some i
                then activateTab (tabs s2 ! min k (length (tabs s2) - 1)) s2
                else s2)"
proof -
  from findIndex_mem[OF assms] obtain k where
    k: "findIndex (\<lambda>x. x = i) (tabs s) = Some k" "k < length (tabs s)" "tabs s ! k = i" by blast
  have "closeTab i s =
       (let s2 = detached i k s
        in if tabs s2 = [] then (if globalIpn s2 then createTab s2 else s2)
           else if activeTabId s2 = Some i
                then activateTab (tabs s2 ! min k (length (tabs s2) - 1)) s2
                else s2)"
    using assms k(1)
    by (simp add: closeTab_def getTab_def find_eq detached_def Let_def tabs_dropSession
        tabs_removeEls)
  with k show ?thesis using that by blast
qed

lemma detached_fields:
  "tabs (detached i k s) = splice_out k (tabs s)"
  "tabIdSeq (detached i k s) = tabIdSeq s"
  "pushed (trace (detached i k s)) = pushed (trace s)"
  "globalIpn (detached i k s) = globalIpn s"
  "status (detached i k s) = status s"
  "buttonsWired (detached i k s) = buttonsWired s"
  using same_core_trans[OF same_core_dropSession[of s i] same_core_removeEls[of "dropSession i s" i]]
  by (simp_all add: detached_def Let_def same_core_def pushed_append)

lemma inv_detached: "inv s \<Longrightarrow> inv (detached i k s)"
  unfolding inv_def detached_fields
  using set_splice_out[of k "tabs s"] distinct_splice_out[of "tabs s" k]
  by (auto simp: splice_out_def)

lemma inv_closeTab: assumes "inv s" shows "inv (closeTab i s)"
proof (cases "i \<in> set (tabs s)")
  case False
  with assms show ?thesis by (simp add: closeTab_absent)
next
  case True
  then obtain k where c: "closeTab i s =
       (let s2 = detached i k s
        in if tabs s2 = [] then (if globalIpn s2 then createTab s2 else s2)
           else if activeTabId s2 = Some i
                then activateTab (tabs s2 ! min k (length (tabs s2) - 1)) s2
                else s2)"
    by (rule closeTab_present)
  have d: "inv (detached i k s)" using assms by (rule inv_detached)
  show ?thesis unfolding c Let_def
    using d inv_createTab[of "detached i k s"] inv_same_core[OF d same_core_activateTab]
    by auto
qed


lemma same_core_clear_loop:
  "same_core s (fold (\<lambda>t x. removeEls t (dropSession t x)) ts s)"
proof (induction ts arbitrary: s)
  case Nil
  show ?case by (simp add: same_core_refl)
next
  case (Cons t ts)
  have "same_core s (removeEls t (dropSession t s))"
    by (rule same_core_trans[OF same_core_dropSession same_core_removeEls])
  from same_core_trans[OF this Cons.IH] show ?case by simp
qed

lemma clearAllTabs_fields:
  "tabs (clearAllTabs s) = []"
  "tabIdSeq (clearAllTabs s) = tabIdSeq s"
  "pushed (trace (clearAllTabs s)) = pushed (trace s)"
  "globalIpn (clearAllTabs s) = globalIpn s"
  "status (clearAllTabs s) = status s"
  "buttonsWired (clearAllTabs s) = buttonsWired s"
  using same_core_clear_loop[of s "tabs s"]
  by (simp_all add: clearAllTabs_def Let_def same_core_def pushed_append pushed_map_TabRemove)

lemma inv_clearAllTabs: "inv s \<Longrightarrow> inv (clearAllTabs s)"
  unfolding inv_def clearAllTabs_fields by simp

lemma set_splice_in_out:
  "k < length xs \<Longrightarrow> set (splice_in j (xs ! k) (splice_out k xs)) = set xs"
proof -
  assume k: "k < length xs"
  have "set (splice_in j x ys) = insert x (set ys)" for x and ys :: "'a list"
    unfolding splice_in_def
    by (metis append_take_drop_id list.simps(15) set_append Un_insert_right)
  moreover have "insert (xs ! k) (set (splice_out k xs)) = set xs"
    unfolding splice_out_def using k
    by (metis Cons_nth_drop_Suc append_take_drop_id list.simps(15) set_append Un_insert_right)
  ultimately show ?thesis by simp
qed

lemma distinct_splice_in_out:
  assumes "distinct xs" "k < length xs"
  shows "distinct (splice_in j (xs ! k) (splice_out k xs))"
proof -
  have notin: "xs ! k \<notin> set (splice_out k xs)"
    using assms unfolding splice_out_def
    by (metis Cons_nth_drop_Suc append_take_drop_id distinct.simps(2) distinct_append
        disjoint_iff list.set_intros(1) set_append UnE)
  have d: "distinct (splice_out k xs)" using assms(1) by (rule distinct_splice_out)
  have "distinct (take j ys @ x # drop j ys)" if "distinct ys" "x \<notin> set ys" for x and ys :: "'a list"
    using that
    by (metis append_take_drop_id distinct.simps(2) distinct_append in_set_dropD in_set_takeD
        disjoint_insert(1) list.simps(15) not_distinct_conv_prefix distinct_take distinct_drop
        set_take_disj_set_drop_if_distinct order_refl)
  from this[OF d notin] show ?thesis by (simp add: splice_in_def)
qed

lemma inv_onDrop: assumes "inv s" shows "inv (onDrop j s)"
proof (cases "dragSrcId s")
  case None
  with assms show ?thesis by (simp add: onDrop_def)
next
  case (Some src)
  show ?thesis
  proof (cases "src \<noteq> j \<and> src \<in> set (tabs s) \<and> j \<in> set (tabs s)")
    case False
    then have "onDrop j s = s"
      using Some by (auto simp: onDrop_def findIndex_None split: option.splits)
    with assms show ?thesis by simp
  next
    case True
    from True findIndex_mem[of src "tabs s"] obtain si where
      si: "findIndex (\<lambda>t. t = src) (tabs s) = Some si" "si < length (tabs s)" by blast
    from True findIndex_mem[of j "tabs s"] obtain di where
      di: "findIndex (\<lambda>t. t = j) (tabs s) = Some di" by blast
    have t: "tabs (onDrop j s) = splice_in di (tabs s ! si) (splice_out si (tabs s))"
      and o: "tabIdSeq (onDrop j s) = tabIdSeq s" "trace (onDrop j s) = trace s"
        "globalIpn (onDrop j s) = globalIpn s" "status (onDrop j s) = status s"
        "buttonsWired (onDrop j s) = buttonsWired s"
      using Some True si di by (simp_all add: onDrop_def Let_def)
    from assms show ?thesis
      unfolding inv_def t o
      using set_splice_in_out[OF si(2), of di] distinct_splice_in_out[OF _ si(2), of di]
      by (auto simp: splice_in_def)
  qed
qed

lemma inv_notifyState: assumes "inv s" shows "inv (notifyState st s)"
proof -
  have s0: "inv (setStatus st s)" if "st \<noteq> Running"
    using assms that by (simp add: inv_def setStatus_def)
  have sched: "inv (scheduleLogin x)" if "inv x" for x
    using that by (simp add: inv_def scheduleLogin_def)
  show ?thesis
  proof (cases st)
    case Running
    let ?s2 = "(if \<not> buttonsWired s then s\<lparr>status := Running, loginTimer := False, ipnEverRan := True, buttonsWired := True, globalIpn := True\<rparr>
                else s\<lparr>status := Running, loginTimer := False, ipnEverRan := True\<rparr>)"
    have i2: "inv ?s2 \<and> globalIpn ?s2" using assms by (auto simp: inv_def)
    have "notifyState st s = (if tabs ?s2 = [] then createTab ?s2 else ?s2)"
      using Running by (simp add: notifyState_def setStatus_def Let_def)
    with i2 inv_createTab[of ?s2] show ?thesis by presburger
  qed (use s0 sched inv_clearAllTabs in \<open>simp_all add: notifyState_def Let_def\<close>)
qed

lemma inv_step: "inv s \<Longrightarrow> inv (step s a)"
proof (cases a)
  case (NotifyState st)
  assume "inv s" then show ?thesis using NotifyState by (simp add: inv_notifyState)
next
  case NotifyPanic
  assume "inv s" then show ?thesis using NotifyPanic
    by (simp add: notifyPanicRecover_def inv_clearAllTabs)
next
  case LoginTimer
  assume "inv s" then show ?thesis using LoginTimer
    by (simp add: loginTimerFires_def inv_def pushed_append)
next
  case NewTabClick
  assume "inv s" then show ?thesis using NewTabClick inv_createTab[of s]
    by (auto simp: newTabClick_def inv_def)
next
  case (CloseClick i)
  assume "inv s" then show ?thesis using CloseClick by (simp add: inv_closeTab)
next
  case (TabClick i)
  assume "inv s" then show ?thesis using TabClick inv_same_core[OF _ same_core_activateTab]
    by simp
next
  case (DragStart i)
  assume "inv s" then show ?thesis using DragStart by (simp add: onDragStart_def inv_def)
next
  case (Drop i)
  assume "inv s" then show ?thesis using Drop by (simp add: inv_onDrop)
next
  case DragEnd
  assume "inv s" then show ?thesis using DragEnd by (simp add: onDragEnd_def inv_def)
next
  case (ConnectClick t dev)
  assume "inv s" then show ?thesis using ConnectClick inv_same_core[OF _ same_core_openSession]
    by simp
next
  case (TypeUsername v)
  assume "inv s" then show ?thesis using TypeUsername by (simp add: typeUsername_def inv_def)
next
  case UsernameConnect
  assume "inv s" then show ?thesis
    using UsernameConnect inv_same_core[OF _ same_core_settle_onConnect] by simp
next
  case UsernameCancel
  assume "inv s" then show ?thesis
    using UsernameCancel inv_same_core[OF _ same_core_settle_onCancel] by simp
next
  case (UsernameKey k)
  assume "inv s" then show ?thesis
    using UsernameKey inv_same_core[OF _ same_core_settle_onKey] by simp
next
  case (SessionError a)
  assume "inv s" then show ?thesis
    using SessionError inv_same_core[OF _ same_core_onError] by simp
next
  case (SessionDone a)
  assume "inv s" then show ?thesis
    using SessionDone inv_same_core[OF _ same_core_onDone] by simp
qed

lemma inv_init: "inv init"
  by (simp add: inv_def init_def)

lemma inv_foldl: "inv s \<Longrightarrow> inv (foldl step s acts)"
  by (induction acts arbitrary: s) (auto simp: inv_step)

lemma inv_run: "inv (run acts)"
  unfolding run_def by (rule inv_foldl[OF inv_init])

subsection \<open>Tab ids\<close>

lemma ids_inv_createTab: "ids_inv s \<Longrightarrow> ids_inv (createTab s)"
  unfolding ids_inv_def
  by (fastforce simp: tabs_createTab tabIdSeq_createTab trace_createTab pushed_append
      sorted_wrt_append)

lemma sorted_splice_out: "sorted_wrt (<) xs \<Longrightarrow> sorted_wrt (<) (splice_out k (xs :: nat list))"
proof -
  assume a: "sorted_wrt (<) xs"
  have b: "sorted_wrt (<) (take k xs @ drop k xs)" using a by simp
  have c: "sorted_wrt (<) (drop (Suc k) xs)" using a by (rule sorted_wrt_drop)
  have d: "set (drop (Suc k) xs) \<subseteq> set (drop k xs)"
    by (rule set_drop_subset_set_drop) simp
  show ?thesis
    unfolding splice_out_def sorted_wrt_append
    using b c d unfolding sorted_wrt_append by blast
qed

lemma ids_inv_detached: "ids_inv s \<Longrightarrow> ids_inv (detached i k s)"
  unfolding ids_inv_def detached_fields
  using set_splice_out[of k "tabs s"] sorted_splice_out[of "tabs s" k]
  by auto

lemma ids_inv_same_core: "ids_inv s \<Longrightarrow> same_core s s' \<Longrightarrow> ids_inv s'"
  by (simp add: ids_inv_def same_core_def)

lemma ids_inv_closeTab: assumes "ids_inv s" shows "ids_inv (closeTab i s)"
proof (cases "i \<in> set (tabs s)")
  case False
  with assms show ?thesis by (simp add: closeTab_absent)
next
  case True
  then obtain k where c: "closeTab i s =
       (let s2 = detached i k s
        in if tabs s2 = [] then (if globalIpn s2 then createTab s2 else s2)
           else if activeTabId s2 = Some i
                then activateTab (tabs s2 ! min k (length (tabs s2) - 1)) s2
                else s2)"
    by (rule closeTab_present)
  have d: "ids_inv (detached i k s)" using assms by (rule ids_inv_detached)
  show ?thesis unfolding c Let_def
    using d ids_inv_createTab[of "detached i k s"] ids_inv_same_core[OF d same_core_activateTab]
    by auto
qed

lemma ids_inv_calls: "ids_inv s \<Longrightarrow> ids_inv (foldl call s cs)"
proof (induction cs arbitrary: s)
  case Nil
  then show ?case by simp
next
  case (Cons c cs)
  then show ?case by (cases c) (simp_all add: ids_inv_createTab ids_inv_closeTab)
qed

lemma strict_sorted_distinct: "sorted_wrt (<) (xs :: nat list) \<Longrightarrow> distinct xs"
  by (induction xs) auto

text \<open>
  C9. After any sequence of \<open>createTab\<close> and \<open>closeTab\<close> calls, started with \<open>globalIpn\<close>
  set or not, the ids in \<open>tabs\<close> are strictly increasing along the array, which is the
  order of creation, hence pairwise distinct; every id ever pushed is larger than all
  pushed before it, so no id is used twice. The last three conjuncts say the same of
  every state the page reaches by its events, where a drag may permute \<open>tabs\<close>: the live
  ids are distinct and the creation order of all ids is strictly increasing.
\<close>

theorem tab_ids_unique_increasing:
  "sorted_wrt (<) (tabs (foldl call (init\<lparr>globalIpn := g\<rparr>) cs)) \<and>
   distinct (tabs (foldl call (init\<lparr>globalIpn := g\<rparr>) cs)) \<and>
   sorted_wrt (<) (pushed (trace (foldl call (init\<lparr>globalIpn := g\<rparr>) cs))) \<and>
   set (tabs (foldl call (init\<lparr>globalIpn := g\<rparr>) cs))
     \<subseteq> set (pushed (trace (foldl call (init\<lparr>globalIpn := g\<rparr>) cs))) \<and>
   distinct (tabs (run acts)) \<and>
   sorted_wrt (<) (pushed (trace (run acts))) \<and>
   set (tabs (run acts)) \<subseteq> set (pushed (trace (run acts)))"
proof -
  have "ids_inv (init\<lparr>globalIpn := g\<rparr>)" by (simp add: ids_inv_def init_def)
  then have "ids_inv (foldl call (init\<lparr>globalIpn := g\<rparr>) cs)" by (rule ids_inv_calls)
  then show ?thesis
    using inv_run[of acts] strict_sorted_distinct[of "tabs (foldl call (init\<lparr>globalIpn := g\<rparr>) cs)"]
    unfolding ids_inv_def inv_def by simp
qed

lemma tab_ids_example:
  "tabs (foldl call (init\<lparr>globalIpn := True\<rparr>) [CreateTab, CreateTab, CloseTab 1, CreateTab, CloseTab 2, CloseTab 3]) = [4]
  \<and> pushed (trace (foldl call (init\<lparr>globalIpn := True\<rparr>) [CreateTab, CreateTab, CloseTab 1, CreateTab, CloseTab 2, CloseTab 3])) = [1,2,3,4]"
  by (simp add: init_def createTab_def closeTab_def loadPicker_def setTabLabel_def getTab_def activateTab_def removeEls_def dropSession_def splice_out_def Let_def)

subsection \<open>Closing the last tab\<close>

lemma closeTab_single:
  "tabs s = [t] \<Longrightarrow> tabs (closeTab t s) = (if globalIpn s then [Suc (tabIdSeq s)] else [])"
proof -
  assume a: "tabs s = [t]"
  then have "t \<in> set (tabs s)" by simp
  then obtain k where k: "findIndex (\<lambda>x. x = t) (tabs s) = Some k" and c: "closeTab t s =
       (let s2 = detached t k s
        in if tabs s2 = [] then (if globalIpn s2 then createTab s2 else s2)
           else if activeTabId s2 = Some t
                then activateTab (tabs s2 ! min k (length (tabs s2) - 1)) s2
                else s2)"
    by (rule closeTab_present)
  from k a have "k = 0" by simp
  with a have e: "tabs (detached t k s) = []" by (simp add: detached_fields splice_out_def)
  show ?thesis unfolding c Let_def using e
    by (simp add: tabs_createTab detached_fields)
qed

text \<open>
  C3, as the code has it. Closing the only tab leaves exactly one tab, a new one with the
  next id, when \<open>globalIpn\<close> is set, and no tab when it is not. In every state the page
  reaches, a tab exists only after \<open>globalIpn\<close> was set, and \<open>globalIpn\<close> is set whenever the
  state is \<open>Running\<close>: there, closing the only tab always leaves exactly one new tab,
  whatever the connectivity state is.
\<close>

theorem closeTab_last_tab:
  "(tabs s = [t] \<longrightarrow> tabs (closeTab t s) = (if globalIpn s then [Suc (tabIdSeq s)] else [])) \<and>
   (tabs (run acts) = [t] \<longrightarrow>
      tabs (closeTab t (run acts)) = [Suc (tabIdSeq (run acts))] \<and> t < Suc (tabIdSeq (run acts))) \<and>
   (status (run acts) = Running \<longrightarrow> globalIpn (run acts))"
proof -
  have i: "inv (run acts)" by (rule inv_run)
  have "tabs (run acts) = [t] \<Longrightarrow> globalIpn (run acts) \<and> t \<le> tabIdSeq (run acts)"
    using i unfolding inv_def by auto
  then show ?thesis
    using i closeTab_single[of s t] closeTab_single[of "run acts" t]
    unfolding inv_def by auto
qed

theorem closeTab_last_tab_witness:
  "tabs (run [NotifyState Running]) = [1] \<and>
   status (run [NotifyState Running]) = Running \<and>
   tabs (closeTab 1 (run [NotifyState Running])) = [2] \<and>
   tabs (init\<lparr>tabs := [1]\<rparr>) = [1] \<and>
   tabs (closeTab 1 (init\<lparr>tabs := [1]\<rparr>)) = []"
proof -
  have r: "tabs (run [NotifyState Running]) = [1]" "status (run [NotifyState Running]) = Running"
    "tabIdSeq (run [NotifyState Running]) = 1"
    by (simp_all add: run_def init_def notifyState_def setStatus_def createTab_def loadPicker_def
        setTabLabel_def getTab_def activateTab_def Let_def)
  have n: "tabs (init\<lparr>tabs := [1]\<rparr>) = [1]" "\<not> globalIpn (init\<lparr>tabs := [1]\<rparr>)"
    by (simp_all add: init_def)
  show ?thesis
    using closeTab_last_tab[of "init\<lparr>tabs := [1]\<rparr>" 1 "[NotifyState Running]"] r n
    by simp
qed

text \<open>
  C3 as stated fails: after \<open>Running\<close> and then \<open>Starting\<close> the state is not \<open>Running\<close>, the
  first tab is still there, and closing it leaves one tab, not none.
\<close>

theorem closeTab_not_running_counterexample:
  "tabs (run [NotifyState Running, NotifyState Starting]) = [1] \<and>
   status (run [NotifyState Running, NotifyState Starting]) \<noteq> Running \<and>
   tabs (step (run [NotifyState Running, NotifyState Starting]) (CloseClick 1)) = [2]"
  by (simp add: run_def init_def notifyState_def setStatus_def createTab_def loadPicker_def
      setTabLabel_def getTab_def activateTab_def closeTab_def removeEls_def dropSession_def
      splice_out_def Let_def)

subsection \<open>Reordering by drag and drop\<close>

lemma three_tabs_fields:
  "tabs three_tabs = [1, 2, 3]" "tabList three_tabs = [1, 2, 3]"
  by (simp_all add: three_tabs_def run_def init_def notifyState_def setStatus_def newTabClick_def
      createTab_def loadPicker_def setTabLabel_def getTab_def activateTab_def Let_def)

lemma findIndex_append_absent:
  "x \<notin> set as \<Longrightarrow> findIndex (\<lambda>t. t = x) (as @ x # bs) = Some (length as)"
  by (induction as) auto

lemma splice_out_removeAll:
  assumes "distinct xs" "k < length xs"
  shows "splice_out k xs = removeAll (xs ! k) xs"
proof -
  have xs: "xs = take k xs @ xs ! k # drop (Suc k) xs"
    using assms(2) by (simp add: id_take_nth_drop)
  with assms(1) have "distinct (take k xs @ xs ! k # drop (Suc k) xs)" by simp
  then have "xs ! k \<notin> set (take k xs)" "xs ! k \<notin> set (drop (Suc k) xs)" by auto
  then have "removeAll (xs ! k) (take k xs @ xs ! k # drop (Suc k) xs)
               = take k xs @ drop (Suc k) xs"
    by (simp add: removeAll_id)
  with xs show ?thesis unfolding splice_out_def by simp
qed

lemma onDrop_noop:
  "dragSrcId s = Some src \<Longrightarrow> src = dst \<or> src \<notin> set (tabs s) \<or> dst \<notin> set (tabs s) \<Longrightarrow>
   onDrop dst s = s"
  by (auto simp: onDrop_def findIndex_None split: option.splits)

lemma onDrop_tabs:
  assumes "dragSrcId s = Some src" "src \<noteq> dst" "distinct (tabs s)"
    and "findIndex (\<lambda>t. t = src) (tabs s) = Some si" "findIndex (\<lambda>t. t = dst) (tabs s) = Some di"
    and "src \<in> set (tabs s)"
  shows "tabs (onDrop dst s) = splice_in di src (removeAll src (tabs s))"
proof -
  from findIndex_mem[OF assms(6)] assms(4) have si: "si < length (tabs s)" "tabs s ! si = src"
    by auto
  have "tabs (onDrop dst s) = splice_in di (tabs s ! si) (splice_out si (tabs s))"
    using assms by (simp add: onDrop_def Let_def)
  then show ?thesis using splice_out_removeAll[OF assms(3) si(1)] si(2) by simp
qed

text \<open>
  C2. On \<open>[a, b, c]\<close> the drag of \<open>a\<close> onto \<open>c\<close> gives the array \<open>[b, c, a]\<close>. In general, for
  distinct ids with source and destination both present and different, the source ends
  at the index the destination had, and the other tabs keep their order. When the two ids
  are equal or one of them is not in \<open>tabs\<close>, neither the array nor the tab bar changes.
\<close>

theorem reorder_moves_source:
  "(distinct [a, b, c] \<and> tabs s = [a, b, c] \<longrightarrow> tabs (reorder a c s) = [b, c, a]) \<and>
   (distinct (tabs s) \<and> src \<in> set (tabs s) \<and> dst \<in> set (tabs s) \<and> src \<noteq> dst \<longrightarrow>
      findIndex (\<lambda>t. t = src) (tabs (reorder src dst s)) = findIndex (\<lambda>t. t = dst) (tabs s) \<and>
      removeAll src (tabs (reorder src dst s)) = removeAll src (tabs s)) \<and>
   (src = dst \<or> src \<notin> set (tabs s) \<or> dst \<notin> set (tabs s) \<longrightarrow>
      tabs (reorder src dst s) = tabs s \<and> tabList (reorder src dst s) = tabList s)"
proof (intro conjI impI)
  assume "distinct [a, b, c] \<and> tabs s = [a, b, c]"
  then show "tabs (reorder a c s) = [b, c, a]"
    by (auto simp: reorder_def onDragEnd_def onDrop_def onDragStart_def splice_in_def
        splice_out_def Let_def)
next
  assume h: "distinct (tabs s) \<and> src \<in> set (tabs s) \<and> dst \<in> set (tabs s) \<and> src \<noteq> dst"
  let ?s = "onDragStart src s"
  have t0: "tabs ?s = tabs s" "dragSrcId ?s = Some src" by (simp_all add: onDragStart_def)
  from h findIndex_mem[of src "tabs s"] obtain si where
    si: "findIndex (\<lambda>t. t = src) (tabs s) = Some si" "si < length (tabs s)" "tabs s ! si = src"
    by blast
  from h findIndex_mem[of dst "tabs s"] obtain di where
    di: "findIndex (\<lambda>t. t = dst) (tabs s) = Some di" "di < length (tabs s)" by blast
  have t: "tabs (reorder src dst s) = splice_in di src (removeAll src (tabs s))"
    using onDrop_tabs[of ?s src dst si di] h si di t0
    by (simp add: reorder_def onDragEnd_def)
  have "removeAll src (tabs s) = splice_out si (tabs s)"
    using splice_out_removeAll[of "tabs s" si] h si by simp
  then have len: "length (removeAll src (tabs s)) = length (tabs s) - 1"
    using si(2) by (simp add: splice_out_def)
  then have le: "di \<le> length (removeAll src (tabs s))" using di(2) by simp
  have "findIndex (\<lambda>t. t = src) (take di (removeAll src (tabs s)) @ src # drop di (removeAll src (tabs s)))
          = Some (length (take di (removeAll src (tabs s))))"
    by (rule findIndex_append_absent) (auto dest: in_set_takeD)
  then show "findIndex (\<lambda>t. t = src) (tabs (reorder src dst s)) = findIndex (\<lambda>t. t = dst) (tabs s)"
    using le di(1) unfolding t splice_in_def by simp
  have "removeAll src (take di (removeAll src (tabs s)) @ src # drop di (removeAll src (tabs s)))
          = take di (removeAll src (tabs s)) @ drop di (removeAll src (tabs s))"
  proof -
    have "src \<notin> set (take di (removeAll src (tabs s)))" "src \<notin> set (drop di (removeAll src (tabs s)))"
      by (auto dest: in_set_takeD in_set_dropD)
    then show ?thesis by simp
  qed
  then show "removeAll src (tabs (reorder src dst s)) = removeAll src (tabs s)"
    unfolding t splice_in_def by simp
next
  assume h: "src = dst \<or> src \<notin> set (tabs s) \<or> dst \<notin> set (tabs s)"
  have "onDrop dst (onDragStart src s) = onDragStart src s"
    by (rule onDrop_noop[of _ src]) (use h in \<open>auto simp: onDragStart_def\<close>)
  then show "tabs (reorder src dst s) = tabs s" "tabList (reorder src dst s) = tabList s"
    by (simp_all add: reorder_def onDragEnd_def onDragStart_def)
qed


theorem reorder_moves_source_witness:
  "tabs three_tabs = [1, 2, 3] \<and>
   tabs (reorder 1 3 three_tabs) = [2, 3, 1] \<and>
   findIndex (\<lambda>t. t = 1) (tabs (reorder 1 3 three_tabs)) = Some 2 \<and>
   removeAll 1 (tabs (reorder 1 3 three_tabs)) = [2, 3] \<and>
   tabs (reorder 2 2 three_tabs) = [1, 2, 3] \<and>
   tabs (reorder 1 7 three_tabs) = [1, 2, 3]"
  using reorder_moves_source[of 1 2 3 three_tabs 1 3]
    reorder_moves_source[of 1 2 3 three_tabs 2 2]
    reorder_moves_source[of 1 2 3 three_tabs 1 7]
  by (simp add: three_tabs_fields)

text \<open>
  C1 at the drag of tab 1 onto tab 3 in the bar \<open>[1, 2, 3]\<close>: the array becomes
  \<open>[2, 3, 1]\<close> and the tab bar \<open>[2, 1, 3]\<close>.
\<close>

theorem drag_right_breaks_order_sync:
  "tabs three_tabs = [1, 2, 3] \<and> tabList three_tabs = [1, 2, 3] \<and>
   tabs (reorder 1 3 three_tabs) = [2, 3, 1] \<and>
   tabList (reorder 1 3 three_tabs) = [2, 1, 3]"
  by (simp add: three_tabs_fields reorder_def onDragEnd_def onDrop_def onDragStart_def
      splice_in_def splice_out_def insertBefore_def Let_def)

subsection \<open>Where the tab bar follows the array, and where it does not\<close>

lemma findIndex_Some:
  "findIndex (\<lambda>t. t = x) ys = Some j \<Longrightarrow> j < length ys \<and> ys ! j = x"
  by (induction ys arbitrary: j) (auto split: if_splits)

lemma findIndex_append_in:
  "x \<in> set as \<Longrightarrow> findIndex (\<lambda>t. t = x) (as @ bs) = findIndex (\<lambda>t. t = x) as"
  by (induction as) auto

lemma findIndex_append_out:
  "x \<notin> set as \<Longrightarrow>
   findIndex (\<lambda>t. t = x) (as @ bs) = map_option (\<lambda>k. length as + k) (findIndex (\<lambda>t. t = x) bs)"
proof (induction as)
  case Nil
  show ?case by (cases "findIndex (\<lambda>t. t = x) bs") simp_all
next
  case (Cons a as)
  then show ?case by (cases "findIndex (\<lambda>t. t = x) bs") auto
qed

lemma takeWhile_findIndex:
  "findIndex (\<lambda>t. t = x) ys = Some j \<Longrightarrow>
   takeWhile (\<lambda>y. y \<noteq> x) ys = take j ys \<and> dropWhile (\<lambda>y. y \<noteq> x) ys = drop j ys"
  by (induction ys arbitrary: j) (auto split: if_splits)

lemma insertBefore_splice:
  assumes "distinct xs" "src \<noteq> dst" "findIndex (\<lambda>t. t = dst) (removeAll src xs) = Some j"
  shows "insertBefore src dst xs = splice_in j src (removeAll src xs)"
proof -
  from findIndex_Some[OF assms(3)] have "dst \<in> set (removeAll src xs)"
    by (metis nth_mem)
  then have "dst \<in> set xs" by simp
  with assms(2) takeWhile_findIndex[OF assms(3)] show ?thesis
    by (simp add: insertBefore_def splice_in_def Let_def)
qed

lemma index_after_removal:
  assumes "distinct xs" "findIndex (\<lambda>t. t = src) xs = Some si"
    "findIndex (\<lambda>t. t = dst) xs = Some di" "src \<noteq> dst"
  shows "findIndex (\<lambda>t. t = dst) (removeAll src xs) = Some (if di < si then di else di - 1)"
    and "si < di \<or> di < si"
proof -
  from findIndex_Some[OF assms(2)] have si: "si < length xs" "xs ! si = src" by auto
  from findIndex_Some[OF assms(3)] have di: "di < length xs" "xs ! di = dst" by auto
  from si di assms(4) show ne: "si < di \<or> di < si" by (cases "si = di") auto
  have r: "removeAll src xs = take si xs @ drop (Suc si) xs"
    using splice_out_removeAll[OF assms(1) si(1)] si(2) by (simp add: splice_out_def)
  have "src # drop (Suc si) xs = drop si xs"
    using Cons_nth_drop_Suc[OF si(1)] si(2) by simp
  then have xs': "take si xs @ src # drop (Suc si) xs = xs" by simp
  then have xs: "xs = take si xs @ src # drop (Suc si) xs" by simp
  show "findIndex (\<lambda>t. t = dst) (removeAll src xs) = Some (if di < si then di else di - 1)"
  proof (cases "di < si")
    case True
    then have "dst \<in> set (take si xs)"
      using di by (auto simp: in_set_conv_nth intro!: exI[of _ di])
    then have "findIndex (\<lambda>t. t = dst) (take si xs @ bs) = findIndex (\<lambda>t. t = dst) (take si xs)"
      for bs by (rule findIndex_append_in)
    from this[of "drop (Suc si) xs"] this[of "src # drop (Suc si) xs"] xs assms(3) r True
    show ?thesis by simp
  next
    case False
    with ne have lt: "si < di" by simp
    have out: "dst \<notin> set (take si xs)"
    proof
      assume "dst \<in> set (take si xs)"
      then obtain k where "k < si" "xs ! k = dst"
        using si(1) by (auto simp: in_set_conv_nth)
      with di assms(1) si(1) lt show False
        by (auto simp: nth_eq_iff_index_eq)
    qed
    have "findIndex (\<lambda>t. t = dst) (take si xs @ src # drop (Suc si) xs)
            = map_option (\<lambda>k. length (take si xs) + k)
                (findIndex (\<lambda>t. t = dst) (src # drop (Suc si) xs))"
      using out by (rule findIndex_append_out)
    with xs assms(3,4) si(1) have
      "map_option (\<lambda>k. si + k) (map_option Suc (findIndex (\<lambda>t. t = dst) (drop (Suc si) xs)))
         = Some di"
      by (simp add: min_def)
    then obtain m where m: "findIndex (\<lambda>t. t = dst) (drop (Suc si) xs) = Some m" "di = si + Suc m"
      by (cases "findIndex (\<lambda>t. t = dst) (drop (Suc si) xs)") auto
    have "findIndex (\<lambda>t. t = dst) (take si xs @ drop (Suc si) xs)
            = map_option (\<lambda>k. length (take si xs) + k)
                (findIndex (\<lambda>t. t = dst) (drop (Suc si) xs))"
      using out by (rule findIndex_append_out)
    with m r si(1) False show ?thesis by (simp add: min_def)
  qed
qed

lemma onDrop_orders:
  assumes "distinct (tabs s)" "tabList s = tabs s" "dragSrcId s = Some src" "src \<noteq> dst"
    "findIndex (\<lambda>t. t = src) (tabs s) = Some si" "findIndex (\<lambda>t. t = dst) (tabs s) = Some di"
  shows "tabs (onDrop dst s) = splice_in di src (removeAll src (tabs s))"
    and "tabList (onDrop dst s)
           = splice_in (if di < si then di else di - 1) src (removeAll src (tabs s))"
proof -
  from findIndex_Some[OF assms(5)] have si: "si < length (tabs s)" "tabs s ! si = src" by auto
  from findIndex_Some[OF assms(6)] have di: "di < length (tabs s)" "tabs s ! di = dst" by auto
  from si have "src \<in> set (tabs s)" by (metis nth_mem)
  from onDrop_tabs[OF assms(3,4,1,5,6) this]
  show "tabs (onDrop dst s) = splice_in di src (removeAll src (tabs s))" .
  have "tabList (onDrop dst s) = insertBefore src dst (tabs s)"
    using assms si di by (simp add: onDrop_def Let_def)
  also have "\<dots> = splice_in (if di < si then di else di - 1) src (removeAll src (tabs s))"
    using insertBefore_splice[OF assms(1,4) index_after_removal(1)[OF assms(1,5,6,4)]] .
  finally show "tabList (onDrop dst s)
           = splice_in (if di < si then di else di - 1) src (removeAll src (tabs s))" .
qed

lemma drop_leftwards_keeps_order:
  assumes "distinct (tabs s)" "tabList s = tabs s" "dragSrcId s = Some src" "src \<noteq> dst"
    "findIndex (\<lambda>t. t = src) (tabs s) = Some si" "findIndex (\<lambda>t. t = dst) (tabs s) = Some di"
    "di < si"
  shows "tabList (onDrop dst s) = tabs (onDrop dst s)"
  using onDrop_orders[OF assms(1-6)] assms(7) by simp

lemma drop_rightwards_breaks_order:
  assumes "distinct (tabs s)" "tabList s = tabs s" "dragSrcId s = Some src" "src \<noteq> dst"
    "findIndex (\<lambda>t. t = src) (tabs s) = Some si" "findIndex (\<lambda>t. t = dst) (tabs s) = Some di"
    "si < di"
  shows "tabList (onDrop dst s) \<noteq> tabs (onDrop dst s)"
proof -
  let ?ys = "removeAll src (tabs s)"
  from index_after_removal(1)[OF assms(1,5,6,4)] assms(7)
  have j: "findIndex (\<lambda>t. t = dst) ?ys = Some (di - 1)" by simp
  from findIndex_Some[OF j] have b: "di - 1 < length ?ys" "?ys ! (di - 1) = dst" by auto
  have "tabList (onDrop dst s) ! (di - 1) = src"
    using onDrop_orders(2)[OF assms(1-6)] assms(7) b(1)
    by (simp add: splice_in_def nth_append)
  moreover have "tabs (onDrop dst s) ! (di - 1) = dst"
    using onDrop_orders(1)[OF assms(1-6)] assms(7) b
    by (simp add: splice_in_def nth_append)
  ultimately show ?thesis using assms(4) by auto
qed

lemma createTab_keeps_order: "tabList s = tabs s \<Longrightarrow> tabList (createTab s) = tabs (createTab s)"
  by (simp add: tabList_createTab tabs_createTab)

lemma tabList_clear_loop:
  "tabList (fold (\<lambda>t x. removeEls t (dropSession t x)) ts s) = filter (\<lambda>x. x \<notin> set ts) (tabList s)"
proof (induction ts arbitrary: s)
  case Nil
  show ?case by simp
next
  case (Cons t ts)
  have "tabList (removeEls t (dropSession t s)) = removeAll t (tabList s)"
    by (simp add: removeEls_def dropSession_def session_close_def Let_def split: option.splits)
  with Cons.IH[of "removeEls t (dropSession t s)"] show ?case
    by (auto simp: removeAll_filter_not_eq intro!: filter_cong)
qed

lemma clearAllTabs_keeps_order:
  "tabList s = tabs s \<Longrightarrow> tabList (clearAllTabs s) = tabs (clearAllTabs s)"
  by (simp add: clearAllTabs_def Let_def tabList_clear_loop)

lemma closeTab_keeps_order:
  assumes "distinct (tabs s)" "tabList s = tabs s"
  shows "tabList (closeTab i s) = tabs (closeTab i s)"
proof (cases "i \<in> set (tabs s)")
  case False
  with assms show ?thesis by (simp add: closeTab_absent)
next
  case True
  then obtain k where k: "k < length (tabs s)" "tabs s ! k = i" and c: "closeTab i s =
       (let s2 = detached i k s
        in if tabs s2 = [] then (if globalIpn s2 then createTab s2 else s2)
           else if activeTabId s2 = Some i
                then activateTab (tabs s2 ! min k (length (tabs s2) - 1)) s2
                else s2)"
    by (rule closeTab_present)
  have "tabList (detached i k s) = removeAll i (tabList s)"
    by (simp add: detached_def removeEls_def dropSession_def session_close_def Let_def
        split: option.splits)
  moreover have "tabs (detached i k s) = removeAll i (tabs s)"
    using splice_out_removeAll[OF assms(1) k(1)] k(2) by (simp add: detached_fields)
  ultimately have "tabList (detached i k s) = tabs (detached i k s)" using assms(2) by simp
  then show ?thesis unfolding c Let_def
    by (auto simp: createTab_keeps_order activateTab_def)
qed

subsection \<open>Sessions are closed before their tab leaves the registry\<close>

lemma before_append: "a \<in> set xs \<Longrightarrow> b \<in> set ys \<Longrightarrow> before a b (xs @ ys)"
proof -
  assume a: "a \<in> set xs" and b: "b \<in> set ys"
  from a have "dropWhile (\<lambda>e. e \<noteq> a) (xs @ ys) = dropWhile (\<lambda>e. e \<noteq> a) xs @ ys"
    by (simp add: dropWhile_append1)
  moreover from a have "dropWhile (\<lambda>e. e \<noteq> a) xs \<noteq> []" by simp
  ultimately have "drop 1 (dropWhile (\<lambda>e. e \<noteq> a) (xs @ ys))
      = drop 1 (dropWhile (\<lambda>e. e \<noteq> a) xs) @ ys"
    by (cases "dropWhile (\<lambda>e. e \<noteq> a) xs") auto
  with b show ?thesis by (simp add: before_def)
qed

lemma trace_dropSession:
  "trace (dropSession t s) =
     trace s @ (case session (tabObj s t) of None \<Rightarrow> [] | Some a \<Rightarrow> [SessionClose a])"
  by (simp add: dropSession_def session_close_def Let_def split: option.splits)

lemma closed_dropSession:
  "session (tabObj s t) = Some a \<Longrightarrow> closed (activations (dropSession t s) a)"
  by (simp add: dropSession_def session_close_def Let_def)

lemma closed_dropSession_mono:
  "closed (activations s a) \<Longrightarrow> closed (activations (dropSession t s) a)"
  by (simp add: dropSession_def session_close_def Let_def split: option.splits)

lemma session_dropSession: "session (tabObj (dropSession t s) t) = None"
  by (simp add: dropSession_def session_close_def Let_def split: option.splits)

lemma session_dropSession_other:
  "t' \<noteq> t \<Longrightarrow> session (tabObj (dropSession t s) t') = session (tabObj s t')"
  by (simp add: dropSession_def session_close_def Let_def split: option.splits)

lemma removeEls_fields:
  "trace (removeEls t s) = trace s" "activations (removeEls t s) = activations s"
  "tabObj (removeEls t s) = tabObj s"
  by (simp_all add: removeEls_def)

lemma trace_detached:
  "trace (detached i k s) =
     trace s @ (case session (tabObj s i) of None \<Rightarrow> [] | Some a \<Rightarrow> [SessionClose a]) @ [TabRemove i]"
  by (simp add: detached_def Let_def removeEls_fields trace_dropSession)

lemma trace_closeTab:
  assumes "i \<in> set (tabs s)"
  shows "\<exists>rest. trace (closeTab i s) =
     trace s @ (case session (tabObj s i) of None \<Rightarrow> [] | Some a \<Rightarrow> [SessionClose a])
       @ [TabRemove i] @ rest"
proof -
  from assms obtain k where c: "closeTab i s =
       (let s2 = detached i k s
        in if tabs s2 = [] then (if globalIpn s2 then createTab s2 else s2)
           else if activeTabId s2 = Some i
                then activateTab (tabs s2 ! min k (length (tabs s2) - 1)) s2
                else s2)"
    by (rule closeTab_present)
  show ?thesis unfolding c Let_def
    by (auto simp: trace_createTab trace_detached activateTab_def)
qed

lemma closed_createTab: "activations (createTab s) = activations s"
  by (simp add: createTab_def loadPicker_def setTabLabel_def getTab_def activateTab_def Let_def
      split: option.splits)

lemma closed_closeTab:
  assumes "i \<in> set (tabs s)" "session (tabObj s i) = Some a"
  shows "closed (activations (closeTab i s) a)"
proof -
  from assms(1) obtain k where c: "closeTab i s =
       (let s2 = detached i k s
        in if tabs s2 = [] then (if globalIpn s2 then createTab s2 else s2)
           else if activeTabId s2 = Some i
                then activateTab (tabs s2 ! min k (length (tabs s2) - 1)) s2
                else s2)"
    by (rule closeTab_present)
  have "closed (activations (detached i k s) a)"
    using closed_dropSession[OF assms(2)] by (simp add: detached_def Let_def removeEls_fields)
  then show ?thesis unfolding c Let_def
    by (auto simp: closed_createTab activateTab_def)
qed

lemma clear_loop:
  "\<exists>ev. trace (fold (\<lambda>t x. removeEls t (dropSession t x)) ts s) = trace s @ ev \<and>
        (\<forall>t \<in> set ts. \<forall>a. session (tabObj s t) = Some a \<longrightarrow>
           SessionClose a \<in> set ev \<and>
           closed (activations (fold (\<lambda>t x. removeEls t (dropSession t x)) ts s) a)) \<and>
        (\<forall>a. closed (activations s a) \<longrightarrow>
           closed (activations (fold (\<lambda>t x. removeEls t (dropSession t x)) ts s) a))"
proof (induction ts arbitrary: s)
  case Nil
  show ?case by simp
next
  case (Cons t ts)
  let ?s1 = "removeEls t (dropSession t s)"
  let ?f = "fold (\<lambda>t x. removeEls t (dropSession t x)) ts"
  from Cons.IH[of ?s1] obtain ev where
    ev: "trace (?f ?s1) = trace ?s1 @ ev"
    and cl: "\<And>u a. u \<in> set ts \<Longrightarrow> session (tabObj ?s1 u) = Some a \<Longrightarrow>
               SessionClose a \<in> set ev \<and> closed (activations (?f ?s1) a)"
    and mono: "\<And>a. closed (activations ?s1 a) \<Longrightarrow> closed (activations (?f ?s1) a)"
    by blast
  let ?e1 = "(case session (tabObj s t) of None \<Rightarrow> [] | Some a \<Rightarrow> [SessionClose a])"
  have tr: "trace (?f ?s1) = trace s @ (?e1 @ ev)"
    using ev by (simp add: removeEls_fields trace_dropSession)
  have A: "SessionClose a \<in> set (?e1 @ ev) \<and> closed (activations (?f ?s1) a)"
    if "u \<in> set (t # ts)" "session (tabObj s u) = Some a" for u a
  proof (cases "u = t")
    case True
    with that(2) have "closed (activations ?s1 a)"
      by (simp add: removeEls_fields closed_dropSession)
    with mono True that(2) show ?thesis by simp
  next
    case False
    with that have "u \<in> set ts" "session (tabObj ?s1 u) = Some a"
      by (simp_all add: removeEls_fields session_dropSession_other)
    from cl[OF this] show ?thesis by simp
  qed
  have B: "closed (activations (?f ?s1) a)" if "closed (activations s a)" for a
    using that mono by (simp add: removeEls_fields closed_dropSession_mono)
  show ?case
    using tr A B by (intro exI[of _ "?e1 @ ev"]) (simp del: set_append)
qed


lemma trace_clearAllTabs:
  "\<exists>ev. trace (clearAllTabs s) = trace s @ ev @ map TabRemove (tabs s) \<and>
        (\<forall>t \<in> set (tabs s). \<forall>a. session (tabObj s t) = Some a \<longrightarrow>
           SessionClose a \<in> set ev \<and> closed (activations (clearAllTabs s) a))"
proof -
  let ?s1 = "fold (\<lambda>t x. removeEls t (dropSession t x)) (tabs s) s"
  from clear_loop[of "tabs s" s] obtain ev where
    ev: "trace ?s1 = trace s @ ev"
    and cl: "\<forall>t \<in> set (tabs s). \<forall>a. session (tabObj s t) = Some a \<longrightarrow>
           SessionClose a \<in> set ev \<and> closed (activations ?s1 a)"
    by blast
  have t: "tabs ?s1 = tabs s"
    using same_core_clear_loop[of s "tabs s"] by (simp add: same_core_def)
  have "trace (clearAllTabs s) = trace s @ ev @ map TabRemove (tabs s)"
    "activations (clearAllTabs s) = activations ?s1"
    using ev t by (simp_all add: clearAllTabs_def Let_def)
  with cl show ?thesis by auto
qed

lemma not_in_closeTab:
  assumes "inv s" "i \<in> set (tabs s)" shows "i \<notin> set (tabs (closeTab i s))"
proof -
  from assms(2) obtain k where k: "k < length (tabs s)" "tabs s ! k = i" and c: "closeTab i s =
       (let s2 = detached i k s
        in if tabs s2 = [] then (if globalIpn s2 then createTab s2 else s2)
           else if activeTabId s2 = Some i
                then activateTab (tabs s2 ! min k (length (tabs s2) - 1)) s2
                else s2)"
    by (rule closeTab_present)
  from assms have d: "distinct (tabs s)" and le: "i \<le> tabIdSeq s"
    unfolding inv_def by auto
  have "tabs (detached i k s) = removeAll i (tabs s)"
    using splice_out_removeAll[OF d k(1)] k(2) by (simp add: detached_fields)
  then show ?thesis unfolding c Let_def using le
    by (auto simp: tabs_createTab detached_fields activateTab_def)
qed

text \<open>
  C4, as the code has it. When a tab in \<open>tabs\<close> holds a session, \<open>closeTab\<close> calls the
  session's \<open>close\<close> before it splices the tab out of \<open>tabs\<close>, and \<open>clearAllTabs\<close> calls it before it empties
  \<open>tabs\<close>; afterwards the activation's \<open>closed\<close> is set. \<open>clearAllTabs\<close> leaves no tab,
  and in a state the page can reach \<open>closeTab\<close> leaves \<open>tabs\<close> without the tab.
\<close>

theorem sessions_closed_before_removal:
  "(i \<in> set (tabs s) \<and> session (tabObj s i) = Some a \<longrightarrow>
      before (SessionClose a) (TabRemove i) (new_events s (closeTab i s)) \<and>
      closed (activations (closeTab i s) a) \<and>
      before (SessionClose a) (TabRemove i) (new_events s (clearAllTabs s)) \<and>
      closed (activations (clearAllTabs s) a)) \<and>
   tabs (clearAllTabs s) = [] \<and>
   (inv s \<and> i \<in> set (tabs s) \<longrightarrow> i \<notin> set (tabs (closeTab i s)))"
proof (intro conjI impI)
  assume h: "i \<in> set (tabs s) \<and> session (tabObj s i) = Some a"
  from trace_closeTab[of i s] h obtain rest where
    "trace (closeTab i s) = trace s @ [SessionClose a] @ ([TabRemove i] @ rest)" by auto
  then have "new_events s (closeTab i s) = [SessionClose a] @ ([TabRemove i] @ rest)"
    by (simp add: new_events_def)
  moreover have "before (SessionClose a) (TabRemove i) ([SessionClose a] @ ([TabRemove i] @ rest))"
    by (rule before_append) simp_all
  ultimately show "before (SessionClose a) (TabRemove i) (new_events s (closeTab i s))" by simp
  from h show "closed (activations (closeTab i s) a)" by (simp add: closed_closeTab)
  from trace_clearAllTabs[of s] h obtain ev where
    ev: "trace (clearAllTabs s) = trace s @ ev @ map TabRemove (tabs s)"
      "SessionClose a \<in> set ev" "closed (activations (clearAllTabs s) a)"
    by blast
  from ev(1) have "new_events s (clearAllTabs s) = ev @ map TabRemove (tabs s)"
    by (simp add: new_events_def)
  moreover have "before (SessionClose a) (TabRemove i) (ev @ map TabRemove (tabs s))"
    by (rule before_append) (use ev(2) h in auto)
  ultimately show "before (SessionClose a) (TabRemove i) (new_events s (clearAllTabs s))" by simp
  from ev(3) show "closed (activations (clearAllTabs s) a)" .
next
  show "tabs (clearAllTabs s) = []" by (simp add: clearAllTabs_fields)
next
  assume "inv s \<and> i \<in> set (tabs s)"
  then show "i \<notin> set (tabs (closeTab i s))" by (simp add: not_in_closeTab)
qed

lemma one_session_fields:
  "tabs one_session = [1]" "session (tabObj one_session 1) = Some 1"
  "\<not> closed (activations one_session 1)" "act_tab (activations one_session 1) = 1"
  "trace one_session = [TabPush 1, FetchDevices 1, RunSSH 1 1 ''100.64.0.1'' ''root'']"
  "pane (tabObj one_session 1) = TerminalView 1"
  "label (tabObj one_session 1) = ''root@a''"
  by (simp_all add: one_session_def dev_a_def run_def init_def notifyState_def setStatus_def
      createTab_def loadPicker_def setTabLabel_def getTab_def activateTab_def openSession_def
      promptUsername_def openSession_resume_def onConnect_def cleanup_def js_or_def js_trim_def
      is_space_def toLowerCase_def lower_char_def cardAddr_def cardName_def getStoredUser_def
      setStoredUser_def LS_PREFIX_def Let_def)

theorem sessions_closed_before_removal_witness:
  "1 \<in> set (tabs one_session) \<and> session (tabObj one_session 1) = Some 1 \<and> inv one_session \<and>
   before (SessionClose 1) (TabRemove 1) (new_events one_session (closeTab 1 one_session)) \<and>
   before (SessionClose 1) (TabRemove 1) (new_events one_session (clearAllTabs one_session)) \<and>
   1 \<notin> set (tabs (closeTab 1 one_session))"
proof -
  have "inv one_session" unfolding one_session_def by (rule inv_run)
  then show ?thesis
    using sessions_closed_before_removal[of 1 one_session 1] one_session_fields(1,2)
    by simp
qed

text \<open>
  C4 as stated fails in its last part, that no session ever outlives its tab: when the
  tabs are cleared while the prompt of tab 1 is open and the user then confirms,
  \<open>runSSHSession\<close> is called for tab 1 after the tab has left \<open>tabs\<close>; the tab object holds
  that session, and its \<open>close\<close> has not been called.
\<close>

theorem session_on_removed_tab_counterexample:
  "tabs late_confirm = [] \<and>
   trace late_confirm
     = [TabPush 1, FetchDevices 1, TabRemove 1, RunSSH 1 1 ''100.64.0.1'' ''root''] \<and>
   session (tabObj late_confirm 1) = Some 1 \<and>
   \<not> closed (activations late_confirm 1)"
  by (simp add: late_confirm_def dev_a_def run_def init_def notifyState_def setStatus_def
      createTab_def loadPicker_def setTabLabel_def getTab_def activateTab_def openSession_def
      promptUsername_def openSession_resume_def onConnect_def onKey_def cleanup_def js_or_def
      js_trim_def is_space_def toLowerCase_def lower_char_def cardAddr_def cardName_def
      getStoredUser_def setStoredUser_def LS_PREFIX_def clearAllTabs_def removeEls_def
      dropSession_def scheduleLogin_def Let_def)

subsection \<open>The username modal\<close>

text \<open>
  C6. With the modal free, the first \<open>promptUsername\<close> takes the gate and stays pending. A
  second call while it is pending resolves with \<open>null\<close> at once and changes nothing, so
  nothing is queued. For an ASCII input: a confirm with an input that is not blank
  resolves the first call with the trimmed input, and a confirm with a blank input
  resolves nothing and keeps the gate. A cancel resolves the first call with \<open>null\<close>. In
  both cases the state in which the promise is resolved has \<open>modalBusy\<close> cleared.
\<close>

theorem prompt_single_flight:
  "\<not> modalBusy s \<longrightarrow>
     snd (promptUsername d1 s) = Pending \<and>
     modalBusy (fst (promptUsername d1 s)) \<and>
     promptUsername d2 (fst (promptUsername d1 s)) = (fst (promptUsername d1 s), Resolved None) \<and>
     (ascii v \<and> js_trim v \<noteq> [] \<longrightarrow>
        snd (onConnect (typeUsername v (fst (promptUsername d1 s)))) = Some (Some (js_trim v)) \<and>
        \<not> modalBusy (fst (onConnect (typeUsername v (fst (promptUsername d1 s)))))) \<and>
     (ascii v \<and> js_trim v = [] \<longrightarrow>
        onConnect (typeUsername v (fst (promptUsername d1 s)))
          = (typeUsername v (fst (promptUsername d1 s)), None)) \<and>
     snd (onCancel (fst (promptUsername d1 s))) = Some None \<and>
     \<not> modalBusy (fst (onCancel (fst (promptUsername d1 s))))"
  by (simp add: promptUsername_def onConnect_def onCancel_def cleanup_def typeUsername_def Let_def)

theorem prompt_single_flight_witness:
  "\<not> modalBusy init \<and>
   snd (promptUsername dev_a init) = Pending \<and>
   promptUsername dev_a (fst (promptUsername dev_a init)) = (fst (promptUsername dev_a init), Resolved None) \<and>
   ascii '' alice '' \<and>
   js_trim '' alice '' = ''alice'' \<and>
   snd (onConnect (typeUsername '' alice '' (fst (promptUsername dev_a init)))) = Some (Some ''alice'') \<and>
   \<not> modalBusy (fst (onConnect (typeUsername '' alice '' (fst (promptUsername dev_a init))))) \<and>
   snd (onCancel (fst (promptUsername dev_a init))) = Some None"
proof -
  have a: "\<not> modalBusy init" by (simp add: init_def)
  have b: "js_trim '' alice '' = ''alice''" by (simp add: js_trim_def is_space_def)
  have c: "ascii '' alice ''" by (simp add: ascii_def)
  show ?thesis
    using prompt_single_flight[of init dev_a dev_a "'' alice ''"] a b c by simp
qed


subsection \<open>Opening a session\<close>

lemma opened_append: "opened t (xs @ ys) = opened t xs + opened t ys"
  by (induction t xs rule: opened.induct) auto

lemma setTabLabel_fields:
  "trace (setTabLabel i l s) = trace s" "actSeq (setTabLabel i l s) = actSeq s"
  "session (tabObj (setTabLabel i l s) t) = session (tabObj s t)"
  "pane (tabObj (setTabLabel i l s) t) = pane (tabObj s t)"
  "activations (setTabLabel i l s) = activations s"
  by (simp_all add: setTabLabel_def split: option.splits)

lemma setStoredUser_fields:
  "trace (setStoredUser h u s) = trace s" "actSeq (setStoredUser h u s) = actSeq s"
  "tabObj (setStoredUser h u s) = tabObj s" "tabs (setStoredUser h u s) = tabs s"
  "activations (setStoredUser h u s) = activations s"
  by (simp_all add: setStoredUser_def)

lemma resume_guard:
  "session (tabObj s t) \<noteq> None \<Longrightarrow> openSession_resume user (t, d, ad, n) s = s"
  by (simp add: openSession_resume_def split: option.splits)

lemma resume_opens:
  assumes "session (tabObj s t) = None" "u \<noteq> []"
  shows "trace (openSession_resume (Some u) (t, d, ad, n) s)
           = trace s @ [RunSSH (Suc (actSeq s)) t ad u]"
    and "session (tabObj (openSession_resume (Some u) (t, d, ad, n) s) t) = Some (Suc (actSeq s))"
  using assms
  by (simp_all add: openSession_resume_def Let_def setTabLabel_fields setStoredUser_fields)

text \<open>
  C5. \<open>openSession\<close> on a tab that has a session returns at once, and so does its
  continuation after the prompt. On a tab without a session, with the modal free: a second
  call while the prompt of the first is open changes nothing; when the user then confirms
  an ASCII name that is not blank, \<open>runSSHSession\<close> is called once for the tab and the tab
  holds that session; a further call changes nothing.
\<close>

theorem openSession_once:
  "(session (tabObj s t) \<noteq> None \<longrightarrow>
      openSession t d ad n s = s \<and> openSession_resume user (t, d, ad, n) s = s) \<and>
   (session (tabObj s t) = None \<and> \<not> modalBusy s \<and> ascii v \<and> js_trim v \<noteq> [] \<longrightarrow>
      openSession t d' ad' n' (openSession t d ad n s) = openSession t d ad n s \<and>
      opened t (trace (settle (onConnect (typeUsername v (openSession t d ad n s)))))
        = Suc (opened t (trace s)) \<and>
      session (tabObj (settle (onConnect (typeUsername v (openSession t d ad n s)))) t)
        = Some (Suc (actSeq s)) \<and>
      openSession t d' ad' n' (settle (onConnect (typeUsername v (openSession t d ad n s))))
        = settle (onConnect (typeUsername v (openSession t d ad n s))))"
proof (intro conjI impI)
  assume "session (tabObj s t) \<noteq> None"
  then show "openSession t d ad n s = s" "openSession_resume user (t, d, ad, n) s = s"
    by (simp_all add: openSession_def resume_guard)
next
  assume h: "session (tabObj s t) = None \<and> \<not> modalBusy s \<and> ascii v \<and> js_trim v \<noteq> []"
  define s1 where "s1 = openSession t d ad n s"
  have s1: "modalBusy s1" "awaiting s1 = Some (t, d, ad, n)" "tabObj s1 = tabObj s"
    "trace s1 = trace s" "actSeq s1 = actSeq s"
    using h by (simp_all add: s1_def openSession_def promptUsername_def Let_def)
  show a: "openSession t d' ad' n' s1 = s1"
    using s1 h by (simp add: openSession_def promptUsername_def openSession_resume_def)
  define s2 where "s2 = (typeUsername v s1)\<lparr>modalBusy := False, awaiting := None\<rparr>"
  have s2: "tabObj s2 = tabObj s" "trace s2 = trace s" "actSeq s2 = actSeq s"
    using s1 by (simp_all add: s2_def typeUsername_def)
  have c: "settle (onConnect (typeUsername v s1))
             = openSession_resume (Some (js_trim v)) (t, d, ad, n) s2"
    using s1 h by (simp add: onConnect_def cleanup_def typeUsername_def s2_def Let_def)
  from s2 h have n2: "session (tabObj s2 t) = None" by simp
  show "opened t (trace (settle (onConnect (typeUsername v s1)))) = Suc (opened t (trace s))"
    unfolding c using resume_opens(1)[OF n2, of "js_trim v" d ad n] h s2
    by (simp add: opened_append)
  show b: "session (tabObj (settle (onConnect (typeUsername v s1))) t) = Some (Suc (actSeq s))"
    unfolding c using resume_opens(2)[OF n2, of "js_trim v" d ad n] h s2 by simp
  show "openSession t d' ad' n' (settle (onConnect (typeUsername v s1)))
          = settle (onConnect (typeUsername v s1))"
    using b by (simp add: openSession_def)
qed

lemma running_fields:
  "session (tabObj (run [NotifyState Running]) 1) = None" "\<not> modalBusy (run [NotifyState Running])"
  "trace (run [NotifyState Running]) = [TabPush 1, FetchDevices 1]"
  "actSeq (run [NotifyState Running]) = 0"
  by (simp_all add: run_def init_def notifyState_def setStatus_def createTab_def loadPicker_def
      setTabLabel_def getTab_def activateTab_def Let_def)

lemma one_session_actSeq: "actSeq one_session = 1"
  by (simp add: one_session_def dev_a_def run_def init_def notifyState_def setStatus_def
      createTab_def loadPicker_def setTabLabel_def getTab_def activateTab_def openSession_def
      promptUsername_def openSession_resume_def onConnect_def cleanup_def js_or_def js_trim_def
      is_space_def toLowerCase_def lower_char_def cardAddr_def cardName_def getStoredUser_def
      setStoredUser_def LS_PREFIX_def Let_def)

theorem openSession_once_witness:
  "session (tabObj (run [NotifyState Running]) 1) = None \<and>
   \<not> modalBusy (run [NotifyState Running]) \<and>
   ascii ''alice'' \<and>
   js_trim ''alice'' \<noteq> [] \<and>
   opened 1 (trace (settle (onConnect (typeUsername ''alice''
      (openSession 1 dev_a ''100.64.0.1'' ''a'' (run [NotifyState Running])))))) = 1 \<and>
   session (tabObj one_session 1) \<noteq> None \<and>
   openSession 1 dev_a ''100.64.0.1'' ''a'' one_session = one_session"
proof -
  have a: "js_trim ''alice'' \<noteq> []" by (simp add: js_trim_def is_space_def)
  have b: "ascii ''alice''" by (simp add: ascii_def)
  show ?thesis
    using openSession_once[of "run [NotifyState Running]" 1 dev_a "''100.64.0.1''" "''a''" None
        "''alice''" dev_a "''100.64.0.1''" "''a''"]
      openSession_once[of one_session 1 dev_a "''100.64.0.1''" "''a''" None]
      running_fields one_session_fields(2) a b
    by simp
qed

subsection \<open>The end of a session\<close>

lemma onSessionEnd_fields:
  "session (tabObj (onSessionEnd t s) t) = None"
  "pane (tabObj (onSessionEnd t s) t) = PickerView"
  "trace (onSessionEnd t s) = trace s @ [FetchDevices t]"
  "activations (onSessionEnd t s) = activations s"
  "actSeq (onSessionEnd t s) = actSeq s"
  by (simp_all add: onSessionEnd_def loadPicker_def Let_def setTabLabel_fields)

text \<open>
  C7, as the code has it. The flag \<open>closed\<close> of an activation is set by the \<open>close\<close> of its
  session object and by nothing else. Once it is set, \<open>onError\<close> and \<open>onDone\<close> do nothing.
  While it is not set, each of them runs \<open>onSessionEnd\<close> and leaves the flag as it was:
  the tab's session becomes \<open>null\<close>, its pane shows the picker, and the device list is
  fetched, once for every callback that fires.
\<close>

theorem session_end_callbacks:
  "(closed (activations s a) \<longrightarrow> onError a s = s \<and> onDone a s = s) \<and>
   (\<not> closed (activations s a) \<longrightarrow>
      onError a s = onSessionEnd (act_tab (activations s a)) s \<and>
      onDone a s = onSessionEnd (act_tab (activations s a)) s \<and>
      \<not> closed (activations (onError a s) a) \<and>
      \<not> closed (activations (onDone a s) a)) \<and>
   session (tabObj (onSessionEnd t s) t) = None \<and>
   pane (tabObj (onSessionEnd t s) t) = PickerView \<and>
   trace (onSessionEnd t s) = trace s @ [FetchDevices t] \<and>
   onError a (session_close a s) = session_close a s \<and>
   onDone a (session_close a s) = session_close a s"
  by (simp add: onError_def onDone_def onSessionEnd_fields session_close_def)

theorem session_end_callbacks_witness:
  "\<not> closed (activations one_session 1) \<and>
   onError 1 one_session = onSessionEnd 1 one_session \<and>
   closed (activations (session_close 1 one_session) 1) \<and>
   onDone 1 (session_close 1 one_session) = session_close 1 one_session \<and>
   onError 1 (session_close 1 one_session) = session_close 1 one_session"
proof -
  have c: "closed (activations (session_close 1 one_session) 1)"
    by (simp add: session_close_def)
  show ?thesis
    using session_end_callbacks[of one_session 1 1]
      session_end_callbacks[of "session_close 1 one_session" 1 1]
      one_session_fields(3,4) c
    by simp
qed

text \<open>
  C7 as stated fails: with the session of tab 1 open, \<open>onError\<close> followed by \<open>onDone\<close>
  hands the tab back to the picker twice, and so does \<open>onError\<close> fired twice.
\<close>

theorem session_end_twice_counterexample:
  "ended_count 1 one_session (step (step one_session (SessionError 1)) (SessionDone 1)) = 2 \<and>
   ended_count 1 one_session (step (step one_session (SessionError 1)) (SessionError 1)) = 2"
  using one_session_fields(3,4,5) one_session_actSeq
  by (simp add: ended_count_def new_events_def onError_def onDone_def onSessionEnd_fields)

section \<open>Properties of the device list\<close>

subsection \<open>The online flag\<close>

lemma trimDevice_online:
  "d' \<in> set (trimDevice pd now d) \<Longrightarrow> online d' = inferOnline pd now (lastSeen d')"
  by (auto simp: trimDevice_def split: option.splits if_splits)

lemma inferOnline_seenSince: "inferOnline pd now ls = seenSince pd now ls"
  by (auto simp: inferOnline_def seenSince_def lastSeenMs_def split: option.splits)

lemma seenSince_seenWithin:
  assumes "600000 \<le> now" and "pd [] = None"
    and "\<And>str ms. ls = Some str \<Longrightarrow> pd str = Some ms \<Longrightarrow> ms < now + 600000"
  shows "seenSince pd now ls = seenWithin pd now ls"
proof (cases ls)
  case None
  then show ?thesis by (simp add: seenSince_def seenWithin_def)
next
  case (Some str)
  show ?thesis
  proof (cases "pd str")
    case None
    with Some show ?thesis by (simp add: seenSince_def seenWithin_def)
  next
    case (Some ms)
    with assms(3) \<open>ls = Some str\<close> have "ms < now + 600000" by simp
    moreover from Some assms(2) have "str \<noteq> []" by auto
    ultimately show ?thesis using Some \<open>ls = Some str\<close> assms(1)
      by (auto simp: seenSince_def seenWithin_def)
  qed
qed

text \<open>
  C10, as the code has it. In every record that the handler returns, \<open>online\<close> holds
  exactly when \<open>lastSeen\<close> is a non-empty string that is a date after the epoch and less
  than ten minutes have elapsed from it to the handler's \<open>now\<close>. The elapsed time is the
  signed difference, so a \<open>lastSeen\<close> ahead of \<open>now\<close> counts as online however far ahead.
\<close>

theorem online_iff_seen_since:
  "handleDevices pd now tok m up = DevicesResponse ds \<Longrightarrow> d' \<in> set ds \<Longrightarrow>
   online d' = seenSince pd now (lastSeen d')"
  by (auto simp: handleDevices_def trimDevice_online inferOnline_seenSince
           split: if_splits upstream.splits option.splits)

lemma handle_api_ex:
  "handleDevices parseDate_ex now True ''GET'' (Replied 200 (Some [api_ex]))
     = DevicesResponse [\<lparr> dev_id = ''1'', name = ''a.ts.net'', displayName = ''a'', hostname = [],
          addresses = [], os = [], online = inferOnline parseDate_ex now (Some ''2023-11-14T23:13:20Z''),
          lastSeen = Some ''2023-11-14T23:13:20Z'', sshEnabled = True \<rparr>]"
  by (simp add: handleDevices_def trimDevice_def api_ex_def firstLabel_def)

theorem online_iff_seen_since_witness:
  "handleDevices parseDate_ex 1700003900000 True ''GET'' (Replied 200 (Some [api_ex]))
     = DevicesResponse [\<lparr> dev_id = ''1'', name = ''a.ts.net'', displayName = ''a'', hostname = [],
          addresses = [], os = [], online = True,
          lastSeen = Some ''2023-11-14T23:13:20Z'', sshEnabled = True \<rparr>] \<and>
   seenSince parseDate_ex 1700003900000 (Some ''2023-11-14T23:13:20Z'')"
proof -
  have o: "inferOnline parseDate_ex 1700003900000 (Some ''2023-11-14T23:13:20Z'')"
    by (simp add: inferOnline_def lastSeenMs_def parseDate_ex_def)
  have h: "handleDevices parseDate_ex 1700003900000 True ''GET'' (Replied 200 (Some [api_ex]))
     = DevicesResponse [\<lparr> dev_id = ''1'', name = ''a.ts.net'', displayName = ''a'', hostname = [],
          addresses = [], os = [], online = True,
          lastSeen = Some ''2023-11-14T23:13:20Z'', sshEnabled = True \<rparr>]"
    using o by (simp add: handle_api_ex)
  show ?thesis
    using online_iff_seen_since[OF h, of "\<lparr> dev_id = ''1'', name = ''a.ts.net'', displayName = ''a'', hostname = [],
          addresses = [], os = [], online = True,
          lastSeen = Some ''2023-11-14T23:13:20Z'', sshEnabled = True \<rparr>"] h
    by simp
qed

text \<open>
  C10 as stated fails: at 1700000000000 a device last seen one hour later is returned
  with \<open>online\<close> set, and its distance from the current time is not below ten minutes.
\<close>

theorem online_future_counterexample:
  "handleDevices parseDate_ex 1700000000000 True ''GET'' (Replied 200 (Some [api_ex]))
     = DevicesResponse [\<lparr> dev_id = ''1'', name = ''a.ts.net'', displayName = ''a'', hostname = [],
          addresses = [], os = [], online = True,
          lastSeen = Some ''2023-11-14T23:13:20Z'', sshEnabled = True \<rparr>] \<and>
   \<not> seenWithin parseDate_ex 1700000000000 (Some ''2023-11-14T23:13:20Z'')"
  by (simp add: handle_api_ex inferOnline_def lastSeenMs_def parseDate_ex_def seenWithin_def)

subsection \<open>The order of the cards\<close>

lemma compareDevices_le: "(compareDevices lc a b \<le> 0) = pickerOrder lc a b"
  by (auto simp: compareDevices_def pickerOrder_def)

lemma consistent_compareDevices:
  assumes "consistent lc" shows "consistent (compareDevices lc)"
proof -
  from assms have tot: "\<And>a b. lc a b \<le> 0 \<or> lc b a \<le> 0"
    and tr: "\<And>a b c. lc a b \<le> 0 \<Longrightarrow> lc b c \<le> 0 \<Longrightarrow> lc a c \<le> 0"
    unfolding consistent_def by blast+
  have "compareDevices lc a b \<le> 0 \<or> compareDevices lc b a \<le> 0" for a b
    using tot[of "sortName a" "sortName b"] by (auto simp: compareDevices_le pickerOrder_def)
  moreover have "compareDevices lc a c \<le> 0"
    if "compareDevices lc a b \<le> 0" "compareDevices lc b c \<le> 0" for a b c
    using that tr[of "sortName a" "sortName b" "sortName c"]
    unfolding compareDevices_le pickerOrder_def by blast
  ultimately show ?thesis unfolding consistent_def by blast
qed

lemma set_insertSorted: "set (insertSorted cmp x xs) = insert x (set xs)"
  by (induction xs) auto

lemma mset_insertSorted: "mset (insertSorted cmp x xs) = add_mset x (mset xs)"
  by (induction xs) auto

lemma mset_js_sort: "mset (js_sort cmp xs) = mset xs"
  by (induction xs) (auto simp: js_sort_def mset_insertSorted)

lemma sorted_insertSorted:
  assumes "consistent cmp" "sorted_wrt (\<lambda>a b. cmp a b \<le> 0) xs"
  shows "sorted_wrt (\<lambda>a b. cmp a b \<le> 0) (insertSorted cmp x xs)"
  using assms(2)
proof (induction xs)
  case Nil
  then show ?case by simp
next
  case (Cons y ys)
  from assms(1) have tot: "cmp x y \<le> 0 \<or> cmp y x \<le> 0"
    and tr: "\<And>a b c. cmp a b \<le> 0 \<Longrightarrow> cmp b c \<le> 0 \<Longrightarrow> cmp a c \<le> 0"
    unfolding consistent_def by blast+
  show ?case
  proof (cases "cmp x y \<le> 0")
    case True
    with Cons.prems tr show ?thesis by auto
  next
    case False
    with tot have "cmp y x \<le> 0" by blast
    with False Cons show ?thesis by (auto simp: set_insertSorted)
  qed
qed

lemma sorted_js_sort:
  "consistent cmp \<Longrightarrow> sorted_wrt (\<lambda>a b. cmp a b \<le> 0) (js_sort cmp xs)"
  by (induction xs) (auto simp: js_sort_def intro: sorted_insertSorted)

lemma renderCards_empty: "renderCards cards [] = cards"
  by (simp add: renderCards_def js_trim_def toLowerCase_def)

lemma consistent_caseless: "consistent caselessCompare"
  unfolding consistent_def caselessCompare_def by (auto simp: not_less split: if_splits)

lemma pickerCards_devices: "pickerCards lc (DevicesResponse ds) = js_sort (compareDevices lc) ds"
  by (simp add: pickerCards_def renderCards_empty js_sort_def)

lemma trimDevice_named: "d' \<in> set (trimDevice pd now d) \<Longrightarrow> name d' \<noteq> []"
  by (auto simp: trimDevice_def split: option.splits if_splits)

lemma handleDevices_named:
  "handleDevices pd now tok m up = DevicesResponse ds \<Longrightarrow> d' \<in> set ds \<Longrightarrow> name d' \<noteq> []"
  by (auto simp: handleDevices_def trimDevice_named split: if_splits upstream.splits option.splits)

text \<open>
  C8. The three devices of the scenario, sent through the worker and the picker, give two
  cards, \<open>a.ts.net\<close> then \<open>b.ts.net\<close>, whatever their \<open>lastSeen\<close> and so whatever \<open>online\<close>
  the worker infers: the worker drops the device without a name. No card made from a
  response of the worker has an empty name. In general the cards are the devices of the
  response, and when \<open>localeCompare\<close> is a consistent ordering they are in the order
  SSH-enabled first, then online first, then ascending by \<open>localeCompare\<close> on the name.
\<close>

theorem picker_cards_sorted:
  "map name (pickerCards lc (handleDevices pd now True ''GET''
       (Replied 200 (Some (scenario l1 l2 l3))))) = [''a.ts.net'', ''b.ts.net''] \<and>
   (\<forall>d \<in> set (pickerCards lc (handleDevices pd now tok m up)). name d \<noteq> []) \<and>
   mset (pickerCards lc (DevicesResponse ds)) = mset ds \<and>
   (consistent lc \<longrightarrow> sorted_wrt (pickerOrder lc) (pickerCards lc resp))"
proof (intro conjI impI ballI)
  show "map name (pickerCards lc (handleDevices pd now True ''GET''
       (Replied 200 (Some (scenario l1 l2 l3))))) = [''a.ts.net'', ''b.ts.net'']"
    by (simp add: pickerCards_def handleDevices_def scenario_def trimDevice_def renderCards_empty
        js_sort_def compareDevices_def)
next
  fix d assume d: "d \<in> set (pickerCards lc (handleDevices pd now tok m up))"
  show "name d \<noteq> []"
  proof (cases "handleDevices pd now tok m up")
    case (ErrorResponse x)
    with d show ?thesis by (simp add: pickerCards_def)
  next
    case (DevicesResponse xs)
    with d have "d \<in># mset (js_sort (compareDevices lc) xs)" by (simp add: pickerCards_devices)
    then have "d \<in> set xs" by (simp add: mset_js_sort)
    with DevicesResponse show ?thesis by (rule handleDevices_named)
  qed
next
  show "mset (pickerCards lc (DevicesResponse ds)) = mset ds"
    by (simp add: pickerCards_devices mset_js_sort)
next
  assume c: "consistent lc"
  show "sorted_wrt (pickerOrder lc) (pickerCards lc resp)"
  proof (cases resp)
    case (ErrorResponse x)
    then show ?thesis by (simp add: pickerCards_def)
  next
    case (DevicesResponse xs)
    have "sorted_wrt (\<lambda>a b. compareDevices lc a b \<le> 0) (js_sort (compareDevices lc) xs)"
      using consistent_compareDevices[OF c] by (rule sorted_js_sort)
    with DevicesResponse show ?thesis by (simp add: pickerCards_devices compareDevices_le)
  qed
qed

lemma four_devices_sorted:
  "map displayName (pickerCards caselessCompare (DevicesResponse four_devices))
     = [''alpha'', ''Bravo'', ''charlie'', ''delta'']"
  by (simp add: pickerCards_devices js_sort_def four_devices_def compareDevices_def
      caselessCompare_def sortName_def js_or_def toLowerCase_def lower_char_def less_char_def)

theorem picker_cards_sorted_witness:
  "consistent caselessCompare \<and>
   map displayName (pickerCards caselessCompare (DevicesResponse four_devices))
     = [''alpha'', ''Bravo'', ''charlie'', ''delta''] \<and>
   sorted_wrt (pickerOrder caselessCompare) (pickerCards caselessCompare (DevicesResponse four_devices)) \<and>
   map name (pickerCards caselessCompare (handleDevices parseDate_ex 1700003900000 True ''GET''
        (Replied 200 (Some (scenario None None None))))) = [''a.ts.net'', ''b.ts.net''] \<and>
   length (pickerCards caselessCompare (handleDevices parseDate_ex 1700003900000 True ''GET''
        (Replied 200 (Some (scenario None None None))))) = 2"
proof -
  have "map name (pickerCards caselessCompare (handleDevices parseDate_ex 1700003900000 True ''GET''
        (Replied 200 (Some (scenario None None None))))) = [''a.ts.net'', ''b.ts.net'']"
    using picker_cards_sorted[of caselessCompare parseDate_ex 1700003900000 None None None]
    by simp
  from arg_cong[OF this, of length]
  have "length (pickerCards caselessCompare (handleDevices parseDate_ex 1700003900000 True ''GET''
        (Replied 200 (Some (scenario None None None))))) = 2"
    by simp
  then show ?thesis
    using picker_cards_sorted[of caselessCompare parseDate_ex 1700003900000 None None None
        True "''GET''" "Replied 200 (Some (scenario None None None))" four_devices
        "DevicesResponse four_devices"]
      consistent_caseless four_devices_sorted
    by simp
qed

end
